theory Spec2Isabelle
  imports Main
begin

section \<open>Bytes and tokens\<close>

text \<open>
  Go byte slices and strings are modelled as \<^typ>\<open>string\<close> (a list of 8-bit characters).
  Go's \<^verbatim>\<open>int\<close> cursor and lengths are natural numbers: the code never makes them negative.
\<close>

datatype Token =
    TokenError | TokenObjectStart | TokenObjectEnd | TokenArrayStart | TokenArrayEnd
  | TokenString | TokenNumber | TokenBool | TokenNull | TokenColon | TokenComma

abbreviation quote :: char where "quote \<equiv> CHR 0x22"
abbreviation backslash :: char where "backslash \<equiv> CHR 0x5C"
abbreviation tab :: char where "tab \<equiv> CHR 0x09"
abbreviation newline :: char where "newline \<equiv> CHR 0x0A"
abbreviation creturn :: char where "creturn \<equiv> CHR 0x0D"
abbreviation space :: char where "space \<equiv> CHR 0x20"

text \<open>\<^verbatim>\<open>isWhitespace\<close>: space, tab, line feed, carriage return.\<close>

definition isWhitespace :: "char \<Rightarrow> bool" where
  "isWhitespace c = (c = space \<or> c = tab \<or> c = newline \<or> c = creturn)"

text \<open>\<^verbatim>\<open>isDigit\<close>: \<^verbatim>\<open>c >= '0' && c <= '9'\<close>.\<close>

definition isDigit :: "char \<Rightarrow> bool" where
  "isDigit c = ((48::nat) \<le> of_char c \<and> of_char c \<le> (57::nat))"

text \<open>The Go slice expression \<^verbatim>\<open>d[a:b]\<close> (for \<open>a \<le> b \<le> length d\<close>).\<close>

definition slice :: "'a list \<Rightarrow> nat \<Rightarrow> nat \<Rightarrow> 'a list" where
  "slice d a b = take (b - a) (drop a d)"

section \<open>Parser state and lexical primitives (parser.go)\<close>

record Parser =
  data :: string
  pos :: nat

definition NewParser :: "string \<Rightarrow> Parser" where
  "NewParser d = \<lparr>data = d, pos = 0\<rparr>"

function skipWhitespace :: "Parser \<Rightarrow> Parser" where
  "skipWhitespace p =
     (if pos p < length (data p) \<and> isWhitespace (data p ! pos p)
      then skipWhitespace (p\<lparr>pos := pos p + 1\<rparr>)
      else p)"
  by pat_completeness auto
termination
  by (relation "measure (\<lambda>p. length (data p) - pos p)") auto

declare skipWhitespace.simps [simp del]

text \<open>
  The scanning loop of \<^verbatim>\<open>parseString\<close>; \<open>start\<close> is the offset of the opening quote.
  A backslash advances the cursor by two without looking at the escaped byte.
\<close>

function parseString_loop :: "nat \<Rightarrow> Parser \<Rightarrow> Token \<times> string \<times> Parser" where
  "parseString_loop start p =
     (if pos p < length (data p) then
        if data p ! pos p = backslash then parseString_loop start (p\<lparr>pos := pos p + 2\<rparr>)
        else if data p ! pos p = quote
          then (TokenString, slice (data p) (start + 1) (pos p + 1 - 1), p\<lparr>pos := pos p + 1\<rparr>)
        else parseString_loop start (p\<lparr>pos := pos p + 1\<rparr>)
      else (TokenError, [], p))"
  by pat_completeness auto
termination
  by (relation "measure (\<lambda>(start, p). length (data p) - pos p)") auto

declare parseString_loop.simps [simp del]

definition parseString :: "Parser \<Rightarrow> Token \<times> string \<times> Parser" where
  "parseString p =
     (if pos p \<ge> length (data p) \<or> data p ! pos p \<noteq> quote then (TokenError, [], p)
      else parseString_loop (pos p) (p\<lparr>pos := pos p + 1\<rparr>))"

text \<open>The loop \<^verbatim>\<open>for p.pos < len(p.data) && isDigit(p.data[p.pos]) { p.pos++ }\<close>.\<close>

function skipDigits :: "Parser \<Rightarrow> Parser" where
  "skipDigits p =
     (if pos p < length (data p) \<and> isDigit (data p ! pos p)
      then skipDigits (p\<lparr>pos := pos p + 1\<rparr>)
      else p)"
  by pat_completeness auto
termination
  by (relation "measure (\<lambda>p. length (data p) - pos p)") auto

declare skipDigits.simps [simp del]

text \<open>The exponent part of \<^verbatim>\<open>parseNumber\<close>; \<open>start\<close> is where the number began.\<close>

definition parseNumber_exp :: "nat \<Rightarrow> Parser \<Rightarrow> Token \<times> string \<times> Parser" where
  "parseNumber_exp start p =
     (if pos p < length (data p) \<and> (data p ! pos p = CHR ''e'' \<or> data p ! pos p = CHR ''E'') then
        let p1 = p\<lparr>pos := pos p + 1\<rparr>;
            p2 = (if pos p1 < length (data p1) \<and>
                     (data p1 ! pos p1 = CHR ''+'' \<or> data p1 ! pos p1 = CHR ''-'')
                  then p1\<lparr>pos := pos p1 + 1\<rparr> else p1)
        in if pos p2 \<ge> length (data p2) \<or> \<not> isDigit (data p2 ! pos p2) then (TokenError, [], p2)
           else let p3 = skipDigits p2 in (TokenNumber, slice (data p3) start (pos p3), p3)
      else (TokenNumber, slice (data p) start (pos p), p))"

text \<open>The fractional part of \<^verbatim>\<open>parseNumber\<close>, followed by the exponent part.\<close>

definition parseNumber_frac :: "nat \<Rightarrow> Parser \<Rightarrow> Token \<times> string \<times> Parser" where
  "parseNumber_frac start p =
     (if pos p < length (data p) \<and> data p ! pos p = CHR ''.'' then
        let p1 = p\<lparr>pos := pos p + 1\<rparr>
        in if pos p1 \<ge> length (data p1) \<or> \<not> isDigit (data p1 ! pos p1) then (TokenError, [], p1)
           else parseNumber_exp start (skipDigits p1)
      else parseNumber_exp start p)"

definition parseNumber :: "Parser \<Rightarrow> Token \<times> string \<times> Parser" where
  "parseNumber p =
     (let start = pos p;
          p1 = (if pos p < length (data p) \<and> data p ! pos p = CHR ''-''
                then p\<lparr>pos := pos p + 1\<rparr> else p)
      in if pos p1 \<ge> length (data p1) \<or> \<not> isDigit (data p1 ! pos p1) then (TokenError, [], p1)
         else parseNumber_frac start (skipDigits (p1\<lparr>pos := pos p1 + 1\<rparr>)))"

text \<open>The comparison loop of \<^verbatim>\<open>matchLiteral\<close>: \<open>True\<close> iff no index from \<open>i\<close> on differs.\<close>

function matchLiteral_loop :: "string \<Rightarrow> Parser \<Rightarrow> nat \<Rightarrow> bool" where
  "matchLiteral_loop literal p i =
     (if i < length literal then
        if data p ! (pos p + i) \<noteq> literal ! i then False
        else matchLiteral_loop literal p (i + 1)
      else True)"
  by pat_completeness auto
termination
  by (relation "measure (\<lambda>(literal, p, i). length literal - i)") auto

declare matchLiteral_loop.simps [simp del]

definition matchLiteral :: "string \<Rightarrow> Parser \<Rightarrow> bool \<times> Parser" where
  "matchLiteral literal p =
     (if pos p + length literal > length (data p) then (False, p)
      else if matchLiteral_loop literal p 0 then (True, p\<lparr>pos := pos p + length literal\<rparr>)
      else (False, p))"

subsection \<open>skipValue\<close>

text \<open>
  \<^verbatim>\<open>skipValue\<close> recurses on nested values and runs a loop per object and per array.
  The three functions below are the function body, the object loop and the array loop;
  the first argument bounds the depth of calls and loop iterations still allowed, and
  \<open>None\<close> means that the bound was reached. Every call consumes at least one byte before
  the next one starts, so the bound \<open>2 * length data + 1\<close> used by \<open>skipValue\<close>
  is never reached: \<open>skipValue\<close> always returns (lemma \<open>skipValue_total\<close> below).
\<close>

fun skipValue_fuel :: "nat \<Rightarrow> Parser \<Rightarrow> (bool \<times> Parser) option"
  and skipObject_fuel :: "nat \<Rightarrow> Parser \<Rightarrow> (bool \<times> Parser) option"
  and skipArray_fuel :: "nat \<Rightarrow> Parser \<Rightarrow> (bool \<times> Parser) option" where
  "skipValue_fuel 0 p = None"
| "skipValue_fuel (Suc n) p0 =
     (let p = skipWhitespace p0 in
      if pos p \<ge> length (data p) then Some (False, p)
      else let c = data p ! pos p in
        if c = CHR ''{'' then skipObject_fuel n (p\<lparr>pos := pos p + 1\<rparr>)
        else if c = CHR ''['' then skipArray_fuel n (p\<lparr>pos := pos p + 1\<rparr>)
        else if c = quote then
          (case parseString p of (tokenType, _, p') \<Rightarrow> Some (tokenType = TokenString, p'))
        else if c = CHR ''t'' then Some (matchLiteral ''true'' p)
        else if c = CHR ''f'' then Some (matchLiteral ''false'' p)
        else if c = CHR ''n'' then Some (matchLiteral ''null'' p)
        else if c = CHR ''-'' \<or> isDigit c then
          (case parseNumber p of (tokenType, _, p') \<Rightarrow> Some (tokenType = TokenNumber, p'))
        else Some (False, p))"
| "skipObject_fuel 0 p = None"
| "skipObject_fuel (Suc n) p0 =
     (let p = skipWhitespace p0 in
      if pos p \<ge> length (data p) then Some (False, p)
      else if data p ! pos p = CHR ''}'' then Some (True, p\<lparr>pos := pos p + 1\<rparr>)
      else if data p ! pos p = CHR '','' then skipObject_fuel n (p\<lparr>pos := pos p + 1\<rparr>)
      else
        (case parseString p of (tokenType, _, p1) \<Rightarrow>
           if tokenType \<noteq> TokenString then Some (False, p1)
           else let p2 = skipWhitespace p1 in
             if pos p2 \<ge> length (data p2) \<or> data p2 ! pos p2 \<noteq> CHR '':'' then Some (False, p2)
             else
               (case skipValue_fuel n (p2\<lparr>pos := pos p2 + 1\<rparr>) of
                  None \<Rightarrow> None
                | Some (ok, p3) \<Rightarrow> if \<not> ok then Some (False, p3) else skipObject_fuel n p3)))"
| "skipArray_fuel 0 p = None"
| "skipArray_fuel (Suc n) p0 =
     (let p = skipWhitespace p0 in
      if pos p \<ge> length (data p) then Some (False, p)
      else if data p ! pos p = CHR '']'' then Some (True, p\<lparr>pos := pos p + 1\<rparr>)
      else if data p ! pos p = CHR '','' then skipArray_fuel n (p\<lparr>pos := pos p + 1\<rparr>)
      else
        (case skipValue_fuel n p of
           None \<Rightarrow> None
         | Some (ok, p3) \<Rightarrow> if \<not> ok then Some (False, p3) else skipArray_fuel n p3))"

definition skipValue :: "Parser \<Rightarrow> (bool \<times> Parser) option" where
  "skipValue p = skipValue_fuel (2 * length (data p) + 1) p"

subsection \<open>The extraction primitives of the Parser\<close>

text \<open>
  \<^verbatim>\<open>ExtractNumber\<close> hands the scanned bytes to \<^verbatim>\<open>strconv.ParseFloat\<close>, which is a
  parameter here (floating point is outside the model). The Go result \<^verbatim>\<open>(n, true)\<close> is
  \<open>Some n\<close>, and \<^verbatim>\<open>(0, false)\<close> is \<open>None\<close>.
\<close>

definition ExtractNumber :: "(string \<Rightarrow> 'f option) \<Rightarrow> Parser \<Rightarrow> 'f option \<times> Parser" where
  "ExtractNumber ParseFloat p =
     (case parseNumber p of (tokenType, v, p') \<Rightarrow>
        if tokenType \<noteq> TokenNumber then (None, p') else (ParseFloat v, p'))"

definition ExtractBool :: "Parser \<Rightarrow> (bool \<times> bool) \<times> Parser" where
  "ExtractBool p0 =
     (let p = skipWhitespace p0 in
      if pos p \<ge> length (data p) then ((False, False), p)
      else if data p ! pos p = CHR ''t'' then
        (case matchLiteral ''true'' p of (ok, p') \<Rightarrow>
           if ok then ((True, True), p') else ((False, False), p'))
      else if data p ! pos p = CHR ''f'' then
        (case matchLiteral ''false'' p of (ok, p') \<Rightarrow>
           if ok then ((False, True), p') else ((False, False), p'))
      else ((False, False), p))"

text \<open>The scanning loop of \<^verbatim>\<open>ExtractString\<close>.\<close>

function ExtractString_loop :: "nat \<Rightarrow> nat \<Rightarrow> Parser \<Rightarrow> (string \<times> bool) \<times> Parser" where
  "ExtractString_loop start startContent p =
     (if pos p < length (data p) then
        if data p ! pos p = backslash then
          (case parseString (p\<lparr>pos := start\<rparr>) of (tokenType, v, p') \<Rightarrow>
             if tokenType \<noteq> TokenString then (([], False), p') else ((v, True), p'))
        else if data p ! pos p = quote then
          ((slice (data p) startContent (pos p), True), p\<lparr>pos := pos p + 1\<rparr>)
        else ExtractString_loop start startContent (p\<lparr>pos := pos p + 1\<rparr>)
      else (([], False), p\<lparr>pos := start\<rparr>))"
  by pat_completeness auto
termination
  by (relation "measure (\<lambda>(start, startContent, p). length (data p) - pos p)") auto

declare ExtractString_loop.simps [simp del]

text \<open>
  \<^verbatim>\<open>ExtractString\<close> reads \<^verbatim>\<open>p.data[p.pos]\<close> without a bounds check: with the cursor at or
  past the end of the input Go panics (index out of range), which is \<open>None\<close> here.
\<close>

definition ExtractString :: "Parser \<Rightarrow> ((string \<times> bool) \<times> Parser) option" where
  "ExtractString p =
     (if pos p \<ge> length (data p) then None
      else if data p ! pos p \<noteq> quote then Some (([], False), p)
      else Some (ExtractString_loop (pos p) (pos p + 1) (p\<lparr>pos := pos p + 1\<rparr>)))"

subsection \<open>The cursor only moves forward\<close>

lemma skipWhitespace_step:
  "pos p < length (data p) \<Longrightarrow> isWhitespace (data p ! pos p) \<Longrightarrow>
   skipWhitespace p = skipWhitespace (p\<lparr>pos := pos p + 1\<rparr>)"
  by (subst skipWhitespace.simps) simp

lemma skipWhitespace_stop:
  "pos p \<ge> length (data p) \<or> \<not> isWhitespace (data p ! pos p) \<Longrightarrow> skipWhitespace p = p"
  by (subst skipWhitespace.simps) auto

lemma skipWhitespace_mono: "pos p \<le> pos (skipWhitespace p) \<and> data (skipWhitespace p) = data p"
proof (induction p rule: skipWhitespace.induct)
  case (1 p)
  show ?case
  proof (cases "pos p < length (data p) \<and> isWhitespace (data p ! pos p)")
    case True
    then have "skipWhitespace p = skipWhitespace (p\<lparr>pos := pos p + 1\<rparr>)"
      by (simp add: skipWhitespace_step)
    with 1 True show ?thesis by simp
  next
    case False
    then have "skipWhitespace p = p" by (intro skipWhitespace_stop) auto
    then show ?thesis by simp
  qed
qed

lemma skipDigits_step:
  "pos p < length (data p) \<Longrightarrow> isDigit (data p ! pos p) \<Longrightarrow>
   skipDigits p = skipDigits (p\<lparr>pos := pos p + 1\<rparr>)"
  by (subst skipDigits.simps) simp

lemma skipDigits_stop:
  "pos p \<ge> length (data p) \<or> \<not> isDigit (data p ! pos p) \<Longrightarrow> skipDigits p = p"
  by (subst skipDigits.simps) auto

lemma skipDigits_mono: "pos p \<le> pos (skipDigits p) \<and> data (skipDigits p) = data p"
proof (induction p rule: skipDigits.induct)
  case (1 p)
  show ?case
  proof (cases "pos p < length (data p) \<and> isDigit (data p ! pos p)")
    case True
    then have "skipDigits p = skipDigits (p\<lparr>pos := pos p + 1\<rparr>)"
      by (simp add: skipDigits_step)
    with 1 True show ?thesis by simp
  next
    case False
    then have "skipDigits p = p" by (intro skipDigits_stop) auto
    then show ?thesis by simp
  qed
qed

lemma parseString_loop_mono:
  "parseString_loop start p = (t, v, p') \<Longrightarrow> pos p \<le> pos p' \<and> data p' = data p"
proof (induction start p arbitrary: t v p' rule: parseString_loop.induct)
  case (1 start p)
  show ?case
  proof (cases "pos p < length (data p)")
    case False
    with "1.prems" show ?thesis by (subst (asm) parseString_loop.simps) auto
  next
    case inb: True
    show ?thesis
    proof (cases "data p ! pos p = backslash")
      case True
      with inb "1.prems" have "parseString_loop start (p\<lparr>pos := pos p + 2\<rparr>) = (t, v, p')"
        by (subst (asm) parseString_loop.simps) simp
      from "1.IH"(1)[OF inb True this] show ?thesis by simp
    next
      case nb: False
      show ?thesis
      proof (cases "data p ! pos p = quote")
        case True
        with inb nb "1.prems" show ?thesis by (subst (asm) parseString_loop.simps) auto
      next
        case False
        with inb nb "1.prems" have "parseString_loop start (p\<lparr>pos := pos p + 1\<rparr>) = (t, v, p')"
          by (subst (asm) parseString_loop.simps) simp
        from "1.IH"(2)[OF inb nb False this] show ?thesis by simp
      qed
    qed
  qed
qed

lemma parseString_loop_String:
  "parseString_loop start p = (TokenString, v, p') \<Longrightarrow> pos p < pos p' \<and> pos p' \<le> length (data p)"
proof (induction start p arbitrary: v p' rule: parseString_loop.induct)
  case (1 start p)
  show ?case
  proof (cases "pos p < length (data p)")
    case False
    with "1.prems" show ?thesis by (subst (asm) parseString_loop.simps) auto
  next
    case inb: True
    show ?thesis
    proof (cases "data p ! pos p = backslash")
      case True
      with inb "1.prems" have "parseString_loop start (p\<lparr>pos := pos p + 2\<rparr>) = (TokenString, v, p')"
        by (subst (asm) parseString_loop.simps) simp
      from "1.IH"(1)[OF inb True this] show ?thesis by simp
    next
      case nb: False
      show ?thesis
      proof (cases "data p ! pos p = quote")
        case True
        with inb nb "1.prems" show ?thesis by (subst (asm) parseString_loop.simps) auto
      next
        case False
        with inb nb "1.prems" have "parseString_loop start (p\<lparr>pos := pos p + 1\<rparr>) = (TokenString, v, p')"
          by (subst (asm) parseString_loop.simps) simp
        from "1.IH"(2)[OF inb nb False this] show ?thesis by simp
      qed
    qed
  qed
qed

lemma parseString_mono:
  "parseString p = (t, v, p') \<Longrightarrow> pos p \<le> pos p' \<and> data p' = data p"
  by (auto simp: parseString_def split: if_splits dest!: parseString_loop_mono)

lemma parseString_String:
  "parseString p = (TokenString, v, p') \<Longrightarrow> pos p < pos p' \<and> pos p' \<le> length (data p)"
  by (auto simp: parseString_def split: if_splits dest!: parseString_loop_String)

lemma parseNumber_exp_mono:
  "parseNumber_exp start p = (t, v, p') \<Longrightarrow> pos p \<le> pos p' \<and> data p' = data p"
  using skipDigits_mono[of "p\<lparr>pos := pos p + 1\<rparr>"] skipDigits_mono[of "p\<lparr>pos := pos p + 2\<rparr>"]
  by (auto simp: parseNumber_exp_def Let_def split: if_splits)

lemma parseNumber_frac_mono:
  "parseNumber_frac start p = (t, v, p') \<Longrightarrow> pos p \<le> pos p' \<and> data p' = data p"
  using skipDigits_mono[of "p\<lparr>pos := pos p + 1\<rparr>"]
  by (auto simp: parseNumber_frac_def Let_def split: if_splits dest!: parseNumber_exp_mono)

lemma parseNumber_mono:
  "parseNumber p = (t, v, p') \<Longrightarrow> pos p \<le> pos p' \<and> data p' = data p"
  using skipDigits_mono[of "p\<lparr>pos := pos p + 1\<rparr>"] skipDigits_mono[of "p\<lparr>pos := pos p + 2\<rparr>"]
  by (auto simp: parseNumber_def Let_def split: if_splits dest!: parseNumber_frac_mono)

lemma matchLiteral_mono:
  "matchLiteral lit p = (ok, p') \<Longrightarrow> pos p \<le> pos p' \<and> data p' = data p"
  by (auto simp: matchLiteral_def split: if_splits)

lemma skipValue_fuel_mono:
  "skipValue_fuel n p = Some (ok, p') \<Longrightarrow> pos p \<le> pos p' \<and> data p' = data p"
  "skipObject_fuel n p = Some (ok, p') \<Longrightarrow> pos p \<le> pos p' \<and> data p' = data p"
  "skipArray_fuel n p = Some (ok, p') \<Longrightarrow> pos p \<le> pos p' \<and> data p' = data p"
proof (induction n p and n p and n p arbitrary: ok p' and ok p' and ok p'
    rule: skipValue_fuel_skipObject_fuel_skipArray_fuel.induct)
  case (1 p)
  then show ?case by simp
next
  case (2 n p0)
  define p where "p = skipWhitespace p0"
  have ws: "pos p0 \<le> pos p" "data p = data p0"
    using skipWhitespace_mono[of p0] by (simp_all add: p_def)
  from "2.prems" show ?case
    using ws "2.IH"(1)[of p "data p ! pos p" ok p'] "2.IH"(2)[of p "data p ! pos p" ok p']
    by (auto simp: Let_def p_def[symmetric] split: if_splits prod.splits
        dest!: parseString_mono matchLiteral_mono parseNumber_mono)
next
  case (3 p)
  then show ?case by simp
next
  case (4 n p0)
  define p where "p = skipWhitespace p0"
  have ws: "pos p0 \<le> pos p" "data p = data p0"
    using skipWhitespace_mono[of p0] by (simp_all add: p_def)
  show ?case
  proof (cases "pos p \<ge> length (data p) \<or> data p ! pos p = CHR ''}''")
    case True
    with "4.prems" ws show ?thesis
      by (auto simp: Let_def p_def[symmetric] split: if_splits)
  next
    case nend: False
    show ?thesis
    proof (cases "data p ! pos p = CHR '',''")
      case True
      with nend "4.prems" have "skipObject_fuel n (p\<lparr>pos := pos p + 1\<rparr>) = Some (ok, p')"
        by (auto simp: Let_def p_def[symmetric] split: if_splits)
      from "4.IH"(1)[OF p_def _ _ True this] nend ws show ?thesis by auto
    next
      case ncomma: False
      obtain tt kv p1 where ps: "parseString p = (tt, kv, p1)" by (cases "parseString p") auto
      have m1: "pos p \<le> pos p1" "data p1 = data p" using parseString_mono[OF ps] by auto
      define p2 where "p2 = skipWhitespace p1"
      have m2: "pos p1 \<le> pos p2" "data p2 = data p1"
        using skipWhitespace_mono[of p1] by (simp_all add: p2_def)
      show ?thesis
      proof (cases "tt \<noteq> TokenString \<or> pos p2 \<ge> length (data p2) \<or> data p2 ! pos p2 \<noteq> CHR '':''")
        case True
        with nend ncomma "4.prems" ps ws m1 m2 show ?thesis
          by (auto simp: Let_def p_def[symmetric] p2_def[symmetric] split: if_splits)
      next
        case colon: False
        from colon nend ncomma "4.prems" ps obtain ok3 p3 where
          sv: "skipValue_fuel n (p2\<lparr>pos := pos p2 + 1\<rparr>) = Some (ok3, p3)"
          by (auto simp: Let_def p_def[symmetric] p2_def[symmetric] split: if_splits option.splits)
        have m3: "pos p2 + 1 \<le> pos p3" "data p3 = data p2"
          using "4.IH"(2)[OF p_def _ _ _ ps[symmetric] refl _ p2_def _ sv] nend ncomma colon by auto
        show ?thesis
        proof (cases ok3)
          case False
          with colon nend ncomma "4.prems" ps sv ws m1 m2 m3 show ?thesis
            by (auto simp: Let_def p_def[symmetric] p2_def[symmetric] split: if_splits)
        next
          case True
          with colon nend ncomma "4.prems" ps sv have "skipObject_fuel n p3 = Some (ok, p')"
            by (auto simp: Let_def p_def[symmetric] p2_def[symmetric] split: if_splits)
          from "4.IH"(3)[OF p_def _ _ _ ps[symmetric] refl _ p2_def _ sv refl _ this] nend ncomma colon True
          have "pos p3 \<le> pos p' \<and> data p' = data p3" by auto
          with ws m1 m2 m3 show ?thesis by auto
        qed
      qed
    qed
  qed
next
  case (5 p)
  then show ?case by simp
next
  case (6 n p0)
  define p where "p = skipWhitespace p0"
  have ws: "pos p0 \<le> pos p" "data p = data p0"
    using skipWhitespace_mono[of p0] by (simp_all add: p_def)
  show ?case
  proof (cases "pos p \<ge> length (data p) \<or> data p ! pos p = CHR '']''")
    case True
    with "6.prems" ws show ?thesis
      by (auto simp: Let_def p_def[symmetric] split: if_splits)
  next
    case nend: False
    show ?thesis
    proof (cases "data p ! pos p = CHR '',''")
      case True
      with nend "6.prems" have "skipArray_fuel n (p\<lparr>pos := pos p + 1\<rparr>) = Some (ok, p')"
        by (auto simp: Let_def p_def[symmetric] split: if_splits)
      from "6.IH"(1)[OF p_def _ _ True this] nend ws show ?thesis by auto
    next
      case ncomma: False
      from nend ncomma "6.prems" obtain ok3 p3 where
        sv: "skipValue_fuel n p = Some (ok3, p3)"
        by (auto simp: Let_def p_def[symmetric] split: if_splits option.splits)
      have m3: "pos p \<le> pos p3" "data p3 = data p"
        using "6.IH"(2)[OF p_def _ _ _ sv] nend ncomma by auto
      show ?thesis
      proof (cases ok3)
        case False
        with nend ncomma "6.prems" sv ws m3 show ?thesis
          by (auto simp: Let_def p_def[symmetric] split: if_splits)
      next
        case True
        with nend ncomma "6.prems" sv have "skipArray_fuel n p3 = Some (ok, p')"
          by (auto simp: Let_def p_def[symmetric] split: if_splits)
        from "6.IH"(3)[OF p_def _ _ _ sv refl _ this] nend ncomma True
        have "pos p3 \<le> pos p' \<and> data p' = data p3" by auto
        with ws m3 show ?thesis by auto
      qed
    qed
  qed
qed

lemma parseNumber_exp_Number:
  "parseNumber_exp start p = (TokenNumber, v, p') \<Longrightarrow> pos p \<le> pos p'"
  by (auto dest: parseNumber_exp_mono)

lemma parseNumber_Number:
  "parseNumber p = (TokenNumber, v, p') \<Longrightarrow> pos p < pos p'"
  using skipDigits_mono[of "p\<lparr>pos := pos p + 1\<rparr>"] skipDigits_mono[of "p\<lparr>pos := pos p + 2\<rparr>"]
  by (auto simp: parseNumber_def Let_def split: if_splits dest!: parseNumber_frac_mono)

lemma matchLiteral_True:
  "matchLiteral lit p = (True, p') \<Longrightarrow> pos p' = pos p + length lit"
  by (auto simp: matchLiteral_def split: if_splits)

lemma skipValue_fuel_progress:
  assumes "skipValue_fuel n p = Some (True, p')"
  shows "pos p < pos p'"
proof (cases n)
  case 0
  with assms show ?thesis by simp
next
  case (Suc m)
  define q where "q = skipWhitespace p"
  have ws: "pos p \<le> pos q" "data q = data p"
    using skipWhitespace_mono[of p] by (simp_all add: q_def)
  from assms Suc ws show ?thesis
    by (auto simp: Let_def q_def[symmetric] split: if_splits prod.splits
        dest!: parseString_String matchLiteral_True parseNumber_Number skipValue_fuel_mono(2,3))
qed

lemma skipValue_fuel_Suc:
  "(\<forall>p. skipValue_fuel n p \<noteq> None \<longrightarrow> skipValue_fuel (Suc n) p = skipValue_fuel n p) \<and>
   (\<forall>p. skipObject_fuel n p \<noteq> None \<longrightarrow> skipObject_fuel (Suc n) p = skipObject_fuel n p) \<and>
   (\<forall>p. skipArray_fuel n p \<noteq> None \<longrightarrow> skipArray_fuel (Suc n) p = skipArray_fuel n p)"
proof (induction n)
  case 0
  show ?case by simp
next
  case (Suc n)
  define m where "m = Suc n"
  have IH: "\<And>p. skipValue_fuel n p \<noteq> None \<Longrightarrow> skipValue_fuel m p = skipValue_fuel n p"
    "\<And>p. skipObject_fuel n p \<noteq> None \<Longrightarrow> skipObject_fuel m p = skipObject_fuel n p"
    "\<And>p. skipArray_fuel n p \<noteq> None \<Longrightarrow> skipArray_fuel m p = skipArray_fuel n p"
    using Suc unfolding m_def by blast+
  have v: "skipValue_fuel (Suc m) p = skipValue_fuel (Suc n) p"
    if "skipValue_fuel (Suc n) p \<noteq> None" for p
    using that by (auto simp: Let_def IH split: if_splits prod.splits)
  have ob: "skipObject_fuel (Suc m) p = skipObject_fuel (Suc n) p"
    if "skipObject_fuel (Suc n) p \<noteq> None" for p
    using that by (auto simp: Let_def IH split: if_splits prod.splits option.splits)
  have ar: "skipArray_fuel (Suc m) p = skipArray_fuel (Suc n) p"
    if "skipArray_fuel (Suc n) p \<noteq> None" for p
    using that by (auto simp: Let_def IH split: if_splits prod.splits option.splits)
  from v ob ar show ?case unfolding m_def by blast
qed

lemma skipValue_fuel_le:
  "n \<le> m \<Longrightarrow> skipValue_fuel n p = Some r \<Longrightarrow> skipValue_fuel m p = Some r"
  by (induction m) (auto simp: le_Suc_eq skipValue_fuel_Suc simp del: skipValue_fuel.simps skipObject_fuel.simps skipArray_fuel.simps)

lemma skipObject_fuel_le:
  "n \<le> m \<Longrightarrow> skipObject_fuel n p = Some r \<Longrightarrow> skipObject_fuel m p = Some r"
  by (induction m) (auto simp: le_Suc_eq skipValue_fuel_Suc simp del: skipValue_fuel.simps skipObject_fuel.simps skipArray_fuel.simps)

lemma skipArray_fuel_le:
  "n \<le> m \<Longrightarrow> skipArray_fuel n p = Some r \<Longrightarrow> skipArray_fuel m p = Some r"
  by (induction m) (auto simp: le_Suc_eq skipValue_fuel_Suc simp del: skipValue_fuel.simps skipObject_fuel.simps skipArray_fuel.simps)

lemma skipObject_fuel_eof:
  "pos (skipWhitespace p) \<ge> length (data (skipWhitespace p)) \<Longrightarrow>
   skipObject_fuel (Suc n) p = Some (False, skipWhitespace p)"
  by (simp add: Let_def)

lemma skipObject_fuel_close:
  "pos (skipWhitespace p) < length (data (skipWhitespace p)) \<Longrightarrow>
   data (skipWhitespace p) ! pos (skipWhitespace p) = CHR ''}'' \<Longrightarrow>
   skipObject_fuel (Suc n) p = Some (True, (skipWhitespace p)\<lparr>pos := pos (skipWhitespace p) + 1\<rparr>)"
  by (simp add: Let_def)

lemma skipObject_fuel_comma:
  "pos (skipWhitespace p) < length (data (skipWhitespace p)) \<Longrightarrow>
   data (skipWhitespace p) ! pos (skipWhitespace p) = CHR '','' \<Longrightarrow>
   skipObject_fuel (Suc n) p = skipObject_fuel n ((skipWhitespace p)\<lparr>pos := pos (skipWhitespace p) + 1\<rparr>)"
  by (simp add: Let_def)

lemma skipObject_fuel_badkey:
  "pos (skipWhitespace p) < length (data (skipWhitespace p)) \<Longrightarrow>
   data (skipWhitespace p) ! pos (skipWhitespace p) \<noteq> CHR ''}'' \<Longrightarrow>
   data (skipWhitespace p) ! pos (skipWhitespace p) \<noteq> CHR '','' \<Longrightarrow>
   parseString (skipWhitespace p) = (tt, kv, p1) \<Longrightarrow> tt \<noteq> TokenString \<Longrightarrow>
   skipObject_fuel (Suc n) p = Some (False, p1)"
  by (simp add: Let_def)

lemma skipObject_fuel_nocolon:
  "pos (skipWhitespace p) < length (data (skipWhitespace p)) \<Longrightarrow>
   data (skipWhitespace p) ! pos (skipWhitespace p) \<noteq> CHR ''}'' \<Longrightarrow>
   data (skipWhitespace p) ! pos (skipWhitespace p) \<noteq> CHR '','' \<Longrightarrow>
   parseString (skipWhitespace p) = (TokenString, kv, p1) \<Longrightarrow>
   pos (skipWhitespace p1) \<ge> length (data (skipWhitespace p1)) \<or>
     data (skipWhitespace p1) ! pos (skipWhitespace p1) \<noteq> CHR '':'' \<Longrightarrow>
   skipObject_fuel (Suc n) p = Some (False, skipWhitespace p1)"
  by (auto simp add: Let_def)

lemma skipObject_fuel_member:
  "pos (skipWhitespace p) < length (data (skipWhitespace p)) \<Longrightarrow>
   data (skipWhitespace p) ! pos (skipWhitespace p) \<noteq> CHR ''}'' \<Longrightarrow>
   data (skipWhitespace p) ! pos (skipWhitespace p) \<noteq> CHR '','' \<Longrightarrow>
   parseString (skipWhitespace p) = (TokenString, kv, p1) \<Longrightarrow>
   pos (skipWhitespace p1) < length (data (skipWhitespace p1)) \<Longrightarrow>
   data (skipWhitespace p1) ! pos (skipWhitespace p1) = CHR '':'' \<Longrightarrow>
   skipObject_fuel (Suc n) p =
     (case skipValue_fuel n ((skipWhitespace p1)\<lparr>pos := pos (skipWhitespace p1) + 1\<rparr>) of
        None \<Rightarrow> None
      | Some (ok, p3) \<Rightarrow> if \<not> ok then Some (False, p3) else skipObject_fuel n p3)"
  by (simp add: Let_def)

lemma skipArray_fuel_eof:
  "pos (skipWhitespace p) \<ge> length (data (skipWhitespace p)) \<Longrightarrow>
   skipArray_fuel (Suc n) p = Some (False, skipWhitespace p)"
  by (simp add: Let_def)

lemma skipArray_fuel_close:
  "pos (skipWhitespace p) < length (data (skipWhitespace p)) \<Longrightarrow>
   data (skipWhitespace p) ! pos (skipWhitespace p) = CHR '']'' \<Longrightarrow>
   skipArray_fuel (Suc n) p = Some (True, (skipWhitespace p)\<lparr>pos := pos (skipWhitespace p) + 1\<rparr>)"
  by (simp add: Let_def)

lemma skipArray_fuel_comma:
  "pos (skipWhitespace p) < length (data (skipWhitespace p)) \<Longrightarrow>
   data (skipWhitespace p) ! pos (skipWhitespace p) = CHR '','' \<Longrightarrow>
   skipArray_fuel (Suc n) p = skipArray_fuel n ((skipWhitespace p)\<lparr>pos := pos (skipWhitespace p) + 1\<rparr>)"
  by (simp add: Let_def)

lemma skipArray_fuel_elem:
  "pos (skipWhitespace p) < length (data (skipWhitespace p)) \<Longrightarrow>
   data (skipWhitespace p) ! pos (skipWhitespace p) \<noteq> CHR '']'' \<Longrightarrow>
   data (skipWhitespace p) ! pos (skipWhitespace p) \<noteq> CHR '','' \<Longrightarrow>
   skipArray_fuel (Suc n) p =
     (case skipValue_fuel n (skipWhitespace p) of
        None \<Rightarrow> None
      | Some (ok, p3) \<Rightarrow> if \<not> ok then Some (False, p3) else skipArray_fuel n p3)"
  by (simp add: Let_def)

lemma skipValue_fuel_total:
  "(\<forall>p. 2 * (length (data p) - pos p) < n \<longrightarrow> skipValue_fuel n p \<noteq> None) \<and>
   (\<forall>p. 2 * (length (data p) - pos p) < n \<longrightarrow> skipObject_fuel n p \<noteq> None) \<and>
   (\<forall>p. 2 * (length (data p) - pos p) + 1 < n \<longrightarrow> skipArray_fuel n p \<noteq> None)"
proof (induction n)
  case 0
  show ?case by simp
next
  case (Suc n)
  have IH: "\<And>p. 2 * (length (data p) - pos p) < n \<Longrightarrow> \<exists>ok p'. skipValue_fuel n p = Some (ok, p')"
    "\<And>p. 2 * (length (data p) - pos p) < n \<Longrightarrow> \<exists>ok p'. skipObject_fuel n p = Some (ok, p')"
    "\<And>p. 2 * (length (data p) - pos p) + 1 < n \<Longrightarrow> \<exists>ok p'. skipArray_fuel n p = Some (ok, p')"
    using Suc by auto
  have v: "skipValue_fuel (Suc n) p \<noteq> None" if b: "2 * (length (data p) - pos p) < Suc n" for p
  proof -
    define q where "q = skipWhitespace p"
    have ws: "pos p \<le> pos q" "data q = data p"
      using skipWhitespace_mono[of p] by (simp_all add: q_def)
    have "pos q < length (data q) \<longrightarrow> 2 * (length (data q) - (pos q + 1)) + 1 < n"
      using b ws by auto
    then show ?thesis
      using IH(2)[of "q\<lparr>pos := pos q + 1\<rparr>"] IH(3)[of "q\<lparr>pos := pos q + 1\<rparr>"]
      by (auto simp: Let_def q_def[symmetric] split: prod.splits)
  qed
  have ob: "skipObject_fuel (Suc n) p \<noteq> None" if b: "2 * (length (data p) - pos p) < Suc n" for p
  proof -
    define q where "q = skipWhitespace p"
    have ws: "pos p \<le> pos q" "data q = data p"
      using skipWhitespace_mono[of p] by (simp_all add: q_def)
    obtain tt kv p1 where ps: "parseString q = (tt, kv, p1)" by (cases "parseString q") auto
    have m1: "pos q \<le> pos p1" "data p1 = data q" using parseString_mono[OF ps] by auto
    define p2 where "p2 = skipWhitespace p1"
    have m2: "pos p1 \<le> pos p2" "data p2 = data p1"
      using skipWhitespace_mono[of p1] by (simp_all add: p2_def)
    consider (eof) "pos q \<ge> length (data q)"
      | (close) "pos q < length (data q)" "data q ! pos q = CHR ''}''"
      | (comma) "pos q < length (data q)" "data q ! pos q = CHR '',''"
      | (badkey) "pos q < length (data q)" "data q ! pos q \<noteq> CHR ''}''" "data q ! pos q \<noteq> CHR '',''"
          "tt \<noteq> TokenString"
      | (nocolon) "pos q < length (data q)" "data q ! pos q \<noteq> CHR ''}''" "data q ! pos q \<noteq> CHR '',''"
          "tt = TokenString" "pos p2 \<ge> length (data p2) \<or> data p2 ! pos p2 \<noteq> CHR '':''"
      | (member) "pos q < length (data q)" "data q ! pos q \<noteq> CHR ''}''" "data q ! pos q \<noteq> CHR '',''"
          "tt = TokenString" "pos p2 < length (data p2)" "data p2 ! pos p2 = CHR '':''"
      by fastforce
    then show ?thesis
    proof cases
      case eof
      then show ?thesis using skipObject_fuel_eof[of p n] by (simp add: q_def)
    next
      case close
      then show ?thesis using skipObject_fuel_close[of p n] by (simp add: q_def)
    next
      case comma
      have "2 * (length (data q) - (pos q + 1)) < n" using comma b ws by auto
      then have "skipObject_fuel n (q\<lparr>pos := pos q + 1\<rparr>) \<noteq> None"
        using IH(2)[of "q\<lparr>pos := pos q + 1\<rparr>"] by auto
      then show ?thesis using comma skipObject_fuel_comma[of p n] by (simp add: q_def)
    next
      case badkey
      then show ?thesis using skipObject_fuel_badkey[of p tt kv p1 n] ps by (simp add: q_def)
    next
      case nocolon
      then show ?thesis using skipObject_fuel_nocolon[of p kv p1 n] ps by (simp add: q_def p2_def)
    next
      case member
      have "2 * (length (data p2) - (pos p2 + 1)) < n"
        using member b ws m1 m2 by auto
      then obtain ok3 p3 where sv: "skipValue_fuel n (p2\<lparr>pos := pos p2 + 1\<rparr>) = Some (ok3, p3)"
        using IH(1)[of "p2\<lparr>pos := pos p2 + 1\<rparr>"] by auto
      have "2 * (length (data p3) - pos p3) < n"
        using skipValue_fuel_mono(1)[OF sv] member b ws m1 m2 by auto
      then have "skipObject_fuel n p3 \<noteq> None"
        using IH(2)[of p3] by auto
      then show ?thesis
        using member sv ps skipObject_fuel_member[of p kv p1 n] by (auto simp add: q_def p2_def)
    qed
  qed
  have ar: "skipArray_fuel (Suc n) p \<noteq> None" if b: "2 * (length (data p) - pos p) + 1 < Suc n" for p
  proof -
    define q where "q = skipWhitespace p"
    have ws: "pos p \<le> pos q" "data q = data p"
      using skipWhitespace_mono[of p] by (simp_all add: q_def)
    consider (eof) "pos q \<ge> length (data q)"
      | (close) "pos q < length (data q)" "data q ! pos q = CHR '']''"
      | (comma) "pos q < length (data q)" "data q ! pos q = CHR '',''"
      | (elem) "pos q < length (data q)" "data q ! pos q \<noteq> CHR '']''" "data q ! pos q \<noteq> CHR '',''"
      by fastforce
    then show ?thesis
    proof cases
      case eof
      then show ?thesis using skipArray_fuel_eof[of p n] by (simp add: q_def)
    next
      case close
      then show ?thesis using skipArray_fuel_close[of p n] by (simp add: q_def)
    next
      case comma
      have "2 * (length (data q) - (pos q + 1)) + 1 < n" using comma b ws by auto
      then have "skipArray_fuel n (q\<lparr>pos := pos q + 1\<rparr>) \<noteq> None"
        using IH(3)[of "q\<lparr>pos := pos q + 1\<rparr>"] by auto
      then show ?thesis using comma skipArray_fuel_comma[of p n] by (simp add: q_def)
    next
      case elem
      have "2 * (length (data q) - pos q) < n" using b ws by auto
      then obtain ok3 p3 where sv: "skipValue_fuel n q = Some (ok3, p3)"
        using IH(1)[of q] by auto
      have "skipArray_fuel n p3 \<noteq> None" if ok3
      proof -
        have "pos q < pos p3" "data p3 = data q"
          using skipValue_fuel_mono(1)[OF sv] skipValue_fuel_progress[of n q p3] sv that by auto
        then have "2 * (length (data p3) - pos p3) + 1 < n" using elem b ws by auto
        then show ?thesis using IH(3)[of p3] by auto
      qed
      then show ?thesis
        using elem sv skipArray_fuel_elem[of p n] by (auto simp add: q_def)
    qed
  qed
  from v ob ar show ?case by blast
qed

lemma skipValue_total: "\<exists>ok p'. skipValue p = Some (ok, p')"
proof -
  have "2 * (length (data p) - pos p) < 2 * length (data p) + 1" by simp
  then have "skipValue_fuel (2 * length (data p) + 1) p \<noteq> None"
    using skipValue_fuel_total[of "2 * length (data p) + 1"] by blast
  then show ?thesis by (auto simp: skipValue_def)
qed

lemma skipValue_fuel_eq:
  assumes "skipValue_fuel n p = Some r"
  shows "skipValue p = Some r"
proof -
  obtain ok p' where s: "skipValue p = Some (ok, p')" using skipValue_total by blast
  show ?thesis
  proof (cases "n \<le> 2 * length (data p) + 1")
    case True
    from skipValue_fuel_le[OF True assms] show ?thesis by (simp add: skipValue_def)
  next
    case False
    then have "2 * length (data p) + 1 \<le> n" by simp
    from skipValue_fuel_le[OF this s[unfolded skipValue_def]] assms s show ?thesis by simp
  qed
qed

lemma ExtractString_loop_mono:
  "start \<le> pos p \<Longrightarrow> ExtractString_loop start sc p = (r, p') \<Longrightarrow>
   start \<le> pos p' \<and> data p' = data p"
proof (induction start sc p arbitrary: r p' rule: ExtractString_loop.induct)
  case (1 start sc p)
  show ?case
  proof (cases "pos p < length (data p)")
    case False
    with "1.prems" show ?thesis by (subst (asm) ExtractString_loop.simps) auto
  next
    case inb: True
    show ?thesis
    proof (cases "data p ! pos p = backslash")
      case True
      obtain tt v q where ps: "parseString (p\<lparr>pos := start\<rparr>) = (tt, v, q)"
        by (cases "parseString (p\<lparr>pos := start\<rparr>)") auto
      from parseString_mono[OF ps] inb True "1.prems" ps show ?thesis
        by (subst (asm) ExtractString_loop.simps) (auto split: if_splits)
    next
      case nb: False
      show ?thesis
      proof (cases "data p ! pos p = quote")
        case True
        with inb nb "1.prems" show ?thesis by (subst (asm) ExtractString_loop.simps) auto
      next
        case False
        with inb nb "1.prems" have "ExtractString_loop start sc (p\<lparr>pos := pos p + 1\<rparr>) = (r, p')"
          by (subst (asm) ExtractString_loop.simps) simp
        from "1.IH"[OF inb nb False _ this] "1.prems"(1) show ?thesis by simp
      qed
    qed
  qed
qed

text \<open>
  Claim C9. Every Parser operation (\<^verbatim>\<open>skipWhitespace\<close>, \<^verbatim>\<open>parseString\<close>, \<^verbatim>\<open>parseNumber\<close>,
  \<^verbatim>\<open>matchLiteral\<close>, \<^verbatim>\<open>skipValue\<close>, \<^verbatim>\<open>ExtractString\<close>, \<^verbatim>\<open>ExtractNumber\<close>,
  \<^verbatim>\<open>ExtractBool\<close>) returns with the cursor at or after the offset it was called with, and
  with the input slice unchanged. The Parser record has the two fields \<open>data\<close> and \<open>pos\<close>
  of the Go struct and nothing else, so this is all the state there is. \<^verbatim>\<open>skipValue\<close> always
  returns; \<^verbatim>\<open>ExtractString\<close> panics exactly when the cursor is not inside the input, and
  otherwise returns.
\<close>

theorem cursor_monotone:
  "(pos p \<le> pos (skipWhitespace p) \<and> data (skipWhitespace p) = data p) \<and>
   (case parseString p of (t, v, p') \<Rightarrow> pos p \<le> pos p' \<and> data p' = data p) \<and>
   (case parseNumber p of (t, v, p') \<Rightarrow> pos p \<le> pos p' \<and> data p' = data p) \<and>
   (case matchLiteral literal p of (ok, p') \<Rightarrow> pos p \<le> pos p' \<and> data p' = data p) \<and>
   (\<exists>ok p'. skipValue p = Some (ok, p') \<and> pos p \<le> pos p' \<and> data p' = data p) \<and>
   (case ExtractString p of
      None \<Rightarrow> pos p \<ge> length (data p)
    | Some (r, p') \<Rightarrow> pos p \<le> pos p' \<and> data p' = data p) \<and>
   (case ExtractNumber ParseFloat p of (r, p') \<Rightarrow> pos p \<le> pos p' \<and> data p' = data p) \<and>
   (case ExtractBool p of (r, p') \<Rightarrow> pos p \<le> pos p' \<and> data p' = data p)"
proof -
  have a1: "pos p \<le> pos (skipWhitespace p) \<and> data (skipWhitespace p) = data p"
    by (rule skipWhitespace_mono)
  have a2: "(case parseString p of (t, v, p') \<Rightarrow> pos p \<le> pos p' \<and> data p' = data p)"
    using parseString_mono[of p] by (cases "parseString p") auto
  have a3: "(case parseNumber p of (t, v, p') \<Rightarrow> pos p \<le> pos p' \<and> data p' = data p)"
    using parseNumber_mono[of p] by (cases "parseNumber p") auto
  have a4: "(case matchLiteral literal p of (ok, p') \<Rightarrow> pos p \<le> pos p' \<and> data p' = data p)"
    using matchLiteral_mono[of literal p] by (cases "matchLiteral literal p") auto
  have a5: "(\<exists>ok p'. skipValue p = Some (ok, p') \<and> pos p \<le> pos p' \<and> data p' = data p)"
  proof -
    obtain ok p' where s: "skipValue p = Some (ok, p')" using skipValue_total by blast
    from skipValue_fuel_mono(1)[OF s[unfolded skipValue_def]] s show ?thesis by simp
  qed
  have a6: "(case ExtractString p of
      None \<Rightarrow> pos p \<ge> length (data p)
    | Some (r, p') \<Rightarrow> pos p \<le> pos p' \<and> data p' = data p)"
  proof (cases "ExtractString p")
    case None
    then show ?thesis by (simp add: ExtractString_def split: if_splits)
  next
    case (Some a)
    obtain r p' where a: "a = (r, p')" by (cases a) auto
    show ?thesis
    proof (cases "data p ! pos p = quote")
      case False
      with Some a show ?thesis by (simp add: ExtractString_def split: if_splits)
    next
      case True
      with Some a have "ExtractString_loop (pos p) (pos p + 1) (p\<lparr>pos := pos p + 1\<rparr>) = (r, p')"
        by (simp add: ExtractString_def split: if_splits)
      from ExtractString_loop_mono[OF _ this] Some a show ?thesis by simp
    qed
  qed
  have a7: "(case ExtractNumber ParseFloat p of (r, p') \<Rightarrow> pos p \<le> pos p' \<and> data p' = data p)"
    using parseNumber_mono[of p]
    by (cases "parseNumber p") (auto simp: ExtractNumber_def split: if_splits)
  have a8: "(case ExtractBool p of (r, p') \<Rightarrow> pos p \<le> pos p' \<and> data p' = data p)"
  proof -
    define q where "q = skipWhitespace p"
    have ws: "pos p \<le> pos q" "data q = data p"
      using skipWhitespace_mono[of p] by (simp_all add: q_def)
    obtain ok1 p1 where m1: "matchLiteral ''true'' q = (ok1, p1)"
      by (cases "matchLiteral ''true'' q") auto
    obtain ok2 p2 where m2: "matchLiteral ''false'' q = (ok2, p2)"
      by (cases "matchLiteral ''false'' q") auto
    have "ExtractBool p = ((False, False), q) \<or> ExtractBool p = ((True, True), p1)
       \<or> ExtractBool p = ((False, False), p1) \<or> ExtractBool p = ((False, True), p2)
       \<or> ExtractBool p = ((False, False), p2)"
      unfolding ExtractBool_def Let_def q_def[symmetric] m1 m2 by simp
    with ws matchLiteral_mono[OF m1] matchLiteral_mono[OF m2] show ?thesis by auto
  qed
  from a1 a2 a3 a4 a5 a6 a7 a8 show ?thesis by blast
qed

text \<open>
  The theorem at a cursor in the middle of the input \<^verbatim>\<open>[1, "a\"b", true]\<close>, in front of
  the string with an escaped quote.
\<close>

definition sample_parser :: Parser where
  "sample_parser =
     \<lparr>data = ''[1, '' @ [quote] @ ''a'' @ [backslash, quote] @ ''b'' @ [quote] @ '', true]'', pos = 3\<rparr>"

theorem cursor_monotone_witness:
  "pos sample_parser \<le> pos (skipWhitespace sample_parser) \<and>
   (\<exists>ok p'. skipValue sample_parser = Some (ok, p') \<and> pos sample_parser \<le> pos p') \<and>
   ExtractString sample_parser \<noteq> None"
proof -
  have "ExtractString sample_parser \<noteq> None"
    by (simp add: ExtractString_def sample_parser_def)
  with cursor_monotone[of sample_parser "''true''" "\<lambda>s. None :: nat option"]
  show ?thesis by blast
qed

subsection \<open>isCompleteLiteral\<close>

text \<open>The loop \<^verbatim>\<open>for i < len(s) && s[i] >= '0' && s[i] <= '9' { i++ }\<close>.\<close>

function digitsFrom :: "string \<Rightarrow> nat \<Rightarrow> nat" where
  "digitsFrom s i = (if i < length s \<and> isDigit (s ! i) then digitsFrom s (i + 1) else i)"
  by pat_completeness auto
termination
  by (relation "measure (\<lambda>(s, i). length s - i)") auto

declare digitsFrom.simps [simp del]

definition isCompleteLiteral_exp :: "string \<Rightarrow> nat \<Rightarrow> bool" where
  "isCompleteLiteral_exp s i =
     (if i < length s \<and> (s ! i = CHR ''e'' \<or> s ! i = CHR ''E'') then
        let i1 = i + 1 in
        if i1 \<ge> length s then False
        else let signed = (s ! i1 = CHR ''+'' \<or> s ! i1 = CHR ''-'');
                 i2 = (if signed then i1 + 1 else i1)
             in if signed \<and> i2 \<ge> length s then False
                else if \<not> isDigit (s ! i2) then False
                else digitsFrom s i2 = length s
      else i = length s)"

definition isCompleteLiteral_frac :: "string \<Rightarrow> nat \<Rightarrow> bool" where
  "isCompleteLiteral_frac s i =
     (if i < length s \<and> s ! i = CHR ''.'' then
        let i1 = i + 1 in
        if i1 \<ge> length s \<or> \<not> isDigit (s ! i1) then False
        else isCompleteLiteral_exp s (digitsFrom s i1)
      else isCompleteLiteral_exp s i)"

definition isCompleteLiteral :: "string \<Rightarrow> bool" where
  "isCompleteLiteral s =
     (if length s > 0 \<and> (s ! 0 = CHR ''{'' \<or> s ! 0 = CHR ''['') then False
      else if s = ''null'' \<or> s = ''true'' \<or> s = ''false'' then True
      else if length s = 0 then False
      else let minus = (s ! 0 = CHR ''-''); i = (if minus then 1 else 0) in
        if minus \<and> i \<ge> length s then False
        else if s ! i = CHR ''0'' then isCompleteLiteral_frac s (i + 1)
        else if (49::nat) \<le> of_char (s ! i) \<and> of_char (s ! i) \<le> (57::nat)
          then isCompleteLiteral_frac s (digitsFrom s (i + 1))
        else False)"

text \<open>
  Claim C4 (the code evaluated at the failing input). \<^verbatim>\<open>parseNumber\<close> skips the first digit
  of the integer part (\<^verbatim>\<open>// Skip first digit (could be 0)\<close>) and then every further digit,
  so on \<^verbatim>\<open>0123\<close> it returns a number token holding all four bytes. RFC 8259 does not
  derive \<^verbatim>\<open>0123\<close>, and the sibling \<^verbatim>\<open>isCompleteLiteral\<close> of the same repository rejects it.
\<close>

theorem parseNumber_leading_zero:
  "parseNumber (NewParser ''0123'') = (TokenNumber, ''0123'', \<lparr>data = ''0123'', pos = 4\<rparr>) \<and>
   isCompleteLiteral ''0123'' = False"
  by code_simp

lemma isCompleteLiteral_examples:
  "isCompleteLiteral ''-12.5e+3''" "isCompleteLiteral ''0''" "isCompleteLiteral ''31''"
  "\<not> isCompleteLiteral ''-''" "\<not> isCompleteLiteral ''1e''" "\<not> isCompleteLiteral ''1.''"
  by code_simp+

section \<open>Path extraction (apexJSON.go)\<close>

text \<open>
  The member loop of \<^verbatim>\<open>Extract\<close> for one path segment, entered after the opening brace.
  \<open>Some p\<close> is the \<^verbatim>\<open>break\<close> with \<^verbatim>\<open>found = true\<close> (the cursor behind the colon of the
  matching key); \<open>None\<close> is every \<^verbatim>\<open>return nil, false\<close> of the loop. The pooled syntax
  error the Go code fills in before returning is never handed to the caller.
\<close>

function Extract_find :: "string \<Rightarrow> Parser \<Rightarrow> Parser option" where
  "Extract_find segment p0 =
     (let p = skipWhitespace p0 in
      if pos p \<ge> length (data p) then None
      else if data p ! pos p = CHR ''}'' then None
      else
        (case parseString p of (tokenType, keyBytes, p1) \<Rightarrow>
           if tokenType \<noteq> TokenString then None
           else let p2 = skipWhitespace p1 in
             if pos p2 \<ge> length (data p2) \<or> data p2 ! pos p2 \<noteq> CHR '':'' then None
             else let p3 = p2\<lparr>pos := pos p2 + 1\<rparr> in
               if keyBytes = segment then Some p3
               else
                 (case skipValue p3 of
                    None \<Rightarrow> None
                  | Some (ok, p4) \<Rightarrow>
                      if \<not> ok then None
                      else let p5 = skipWhitespace p4 in
                        if pos p5 \<ge> length (data p5) then None
                        else if data p5 ! pos p5 = CHR ''}'' then None
                        else if data p5 ! pos p5 \<noteq> CHR '','' then None
                        else Extract_find segment (p5\<lparr>pos := pos p5 + 1\<rparr>))))"
  by pat_completeness auto
termination
proof (relation "measure (\<lambda>(segment, p). length (data p) - pos p)", goal_cases)
  case 1
  show ?case by simp
next
  case (2 segment p0 p tokenType y keyBytes p1 p2 p3 x2 ok p4 p5)
  have a: "pos p0 \<le> pos p" "data p = data p0"
    using skipWhitespace_mono[of p0] 2 by auto
  have ps: "parseString p = (tokenType, keyBytes, p1)" using 2 by auto
  have b: "pos p \<le> pos p1" "data p1 = data p"
    using parseString_mono[OF ps] by auto
  have c: "pos p1 \<le> pos p2" "data p2 = data p1"
    using skipWhitespace_mono[of p1] 2 by auto
  have sv: "skipValue_fuel (2 * length (data p3) + 1) p3 = Some (ok, p4)"
    using 2 by (auto simp: skipValue_def)
  have d: "pos p3 \<le> pos p4" "data p4 = data p3"
    using skipValue_fuel_mono(1)[OF sv] by auto
  have e: "pos p4 \<le> pos p5" "data p5 = data p4"
    using skipWhitespace_mono[of p4] 2 by auto
  have f: "pos p3 = pos p2 + 1" "data p3 = data p2" "pos p5 < length (data p5)"
    using 2 by auto
  from a b c d e f show ?case by auto
qed

declare Extract_find.simps [simp del]

text \<open>
  The loop \<^verbatim>\<open>for _, segment := range path\<close>. The range expression is evaluated once, so
  the segments visited are those of the original path, while the loop body shortens the
  variable \<^verbatim>\<open>path\<close> by one per iteration: at every iteration \<^verbatim>\<open>path\<close> is the list of
  segments from the current one on, and \<^verbatim>\<open>len(path) == 1\<close> holds at the last segment.
\<close>

fun Extract_segments :: "Parser \<Rightarrow> string list \<Rightarrow> string \<times> bool" where
  "Extract_segments p0 [] = ([], False)"
| "Extract_segments p0 (segment # rest) =
     (let p = skipWhitespace p0 in
      if pos p \<ge> length (data p) then ([], False)
      else if data p ! pos p \<noteq> CHR ''{'' then ([], False)
      else
        (case Extract_find segment (p\<lparr>pos := pos p + 1\<rparr>) of
           None \<Rightarrow> ([], False)
         | Some p1 \<Rightarrow>
             if length (segment # rest) = 1 then
               (let p2 = skipWhitespace p1; start = pos p2 in
                case skipValue p2 of
                  None \<Rightarrow> ([], False)
                | Some (ok, p3) \<Rightarrow>
                    if \<not> ok then ([], False) else (slice (data p3) start (pos p3), True))
             else Extract_segments p1 rest))"

definition Extract :: "string \<Rightarrow> string list \<Rightarrow> string \<times> bool" where
  "Extract d path =
     (if length path = 0 then (d, True)
      else Extract_segments (skipWhitespace (NewParser d)) path)"

text \<open>
  Claim C10. With no path segment, \<^verbatim>\<open>Extract\<close> returns its input and \<open>found = true\<close>,
  whatever the bytes are: nothing is read or validated. (That the result is the same
  slice and not a copy is the Go statement \<^verbatim>\<open>return data, true\<close>; a value of the model
  has no identity beyond its bytes.)
\<close>

theorem Extract_no_path: "Extract b [] = (b, True)"
  by (simp add: Extract_def)

lemma Extract_example:
  "Extract (''{'' @ [quote] @ ''a'' @ [quote] @ '':{'' @ [quote] @ ''b'' @ [quote] @ '': [1, 2] }}'') [''a'', ''b''] = (''[1, 2]'', True)"
  by code_simp

section \<open>skipValue on well-formed values\<close>

text \<open>The unread input of a parser state.\<close>

definition remaining :: "Parser \<Rightarrow> string" where
  "remaining p = drop (pos p) (data p)"

lemma remaining_Cons:
  assumes "remaining p = c # r"
  shows "pos p < length (data p) \<and> data p ! pos p = c"
proof -
  have lt: "pos p < length (data p)"
  proof (rule ccontr)
    assume "\<not> pos p < length (data p)"
    then have "drop (pos p) (data p) = []" by simp
    with assms show False by (simp add: remaining_def)
  qed
  have "hd (drop (pos p) (data p)) = data p ! pos p"
    using lt by (simp add: hd_drop_conv_nth)
  with assms lt show ?thesis by (simp add: remaining_def)
qed

lemma remaining_Nil: "remaining p = [] \<Longrightarrow> pos p \<ge> length (data p)"
  by (simp add: remaining_def)

lemma remaining_advance:
  assumes "remaining p = xs @ r"
  shows "remaining (p\<lparr>pos := pos p + length xs\<rparr>) = r"
proof -
  have "drop (pos p + length xs) (data p) = drop (length xs) (drop (pos p) (data p))"
    by (simp add: add.commute)
  also have "\<dots> = r" using assms by (simp add: remaining_def)
  finally show ?thesis by (simp add: remaining_def)
qed

lemma remaining_advance1:
  "remaining p = c # r \<Longrightarrow> remaining (p\<lparr>pos := pos p + 1\<rparr>) = r"
  using remaining_advance[of p "[c]" r] by simp

lemma remaining_nth:
  assumes "remaining p = xs @ r" "k < length xs"
  shows "data p ! (pos p + k) = xs ! k"
proof -
  have "k < length (drop (pos p) (data p))"
    using assms by (simp add: remaining_def)
  then have "pos p + k < length (data p)" by simp
  then have "drop (pos p) (data p) ! k = data p ! (pos p + k)" by simp
  with assms show ?thesis by (simp add: remaining_def nth_append)
qed

lemma remaining_bound:
  assumes "remaining p = xs @ r" "xs \<noteq> []"
  shows "pos p + length xs \<le> length (data p)"
proof -
  have "length (drop (pos p) (data p)) = length xs + length r"
    using assms by (simp add: remaining_def)
  moreover have "length xs > 0" using assms by simp
  ultimately show ?thesis by (simp del: length_greater_0_conv)
qed

subsection \<open>The lexical primitives on their tokens\<close>

lemma skipWhitespace_remaining:
  "list_all isWhitespace w \<Longrightarrow> remaining p = w @ r \<Longrightarrow> r = [] \<or> \<not> isWhitespace (hd r) \<Longrightarrow>
   skipWhitespace p = p\<lparr>pos := pos p + length w\<rparr>"
proof (induction w arbitrary: p)
  case Nil
  show ?case
  proof (cases r)
    case Nil
    with Nil.prems have "pos p \<ge> length (data p)" by (simp add: remaining_Nil)
    then show ?thesis by (simp add: skipWhitespace_stop)
  next
    case (Cons c r')
    with Nil.prems remaining_Cons[of p c r'] show ?thesis by (simp add: skipWhitespace_stop)
  qed
next
  case (Cons c w)
  from Cons.prems remaining_Cons[of p c "w @ r"]
  have h: "pos p < length (data p)" "data p ! pos p = c" "isWhitespace c" by auto
  have rem: "remaining (p\<lparr>pos := pos p + 1\<rparr>) = w @ r"
    using Cons.prems remaining_advance1[of p c "w @ r"] by simp
  have "skipWhitespace p = skipWhitespace (p\<lparr>pos := pos p + 1\<rparr>)"
    using h by (simp add: skipWhitespace_step)
  also have "\<dots> = p\<lparr>pos := pos p + 1\<rparr>\<lparr>pos := pos (p\<lparr>pos := pos p + 1\<rparr>) + length w\<rparr>"
    using Cons.IH[OF _ rem] Cons.prems by simp
  finally show ?case by simp
qed

lemma skipDigits_remaining:
  "list_all isDigit ds \<Longrightarrow> remaining p = ds @ r \<Longrightarrow> r = [] \<or> \<not> isDigit (hd r) \<Longrightarrow>
   skipDigits p = p\<lparr>pos := pos p + length ds\<rparr>"
proof (induction ds arbitrary: p)
  case Nil
  show ?case
  proof (cases r)
    case Nil
    with Nil.prems have "pos p \<ge> length (data p)" by (simp add: remaining_Nil)
    then show ?thesis by (simp add: skipDigits_stop)
  next
    case (Cons c r')
    with Nil.prems remaining_Cons[of p c r'] show ?thesis by (simp add: skipDigits_stop)
  qed
next
  case (Cons c ds)
  from Cons.prems remaining_Cons[of p c "ds @ r"]
  have h: "pos p < length (data p)" "data p ! pos p = c" "isDigit c" by auto
  have rem: "remaining (p\<lparr>pos := pos p + 1\<rparr>) = ds @ r"
    using Cons.prems remaining_advance1[of p c "ds @ r"] by simp
  have "skipDigits p = skipDigits (p\<lparr>pos := pos p + 1\<rparr>)"
    using h by (simp add: skipDigits_step)
  also have "\<dots> = p\<lparr>pos := pos p + 1\<rparr>\<lparr>pos := pos (p\<lparr>pos := pos p + 1\<rparr>) + length ds\<rparr>"
    using Cons.IH[OF _ rem] Cons.prems by simp
  finally show ?case by simp
qed

lemma matchLiteral_loop_remaining:
  "remaining p = lit @ r \<Longrightarrow> matchLiteral_loop lit p i"
proof (induction lit p i rule: matchLiteral_loop.induct)
  case (1 literal p i)
  show ?case
  proof (cases "i < length literal")
    case True
    with "1.prems" have "data p ! (pos p + i) = literal ! i" by (simp add: remaining_nth)
    with True "1.IH" "1.prems" show ?thesis by (subst matchLiteral_loop.simps) simp
  next
    case False
    then show ?thesis by (subst matchLiteral_loop.simps) simp
  qed
qed

lemma matchLiteral_remaining:
  assumes "remaining p = lit @ r" "lit \<noteq> []"
  shows "matchLiteral lit p = (True, p\<lparr>pos := pos p + length lit\<rparr>)"
  using remaining_bound[OF assms] matchLiteral_loop_remaining[OF assms(1)]
  by (simp add: matchLiteral_def)

subsection \<open>JSON texts (RFC 8259)\<close>

text \<open>
  A character of a JSON string as it stands between the quotes: an unescaped byte, a
  two-character escape, or \<^verbatim>\<open>\uXXXX\<close>.
\<close>

datatype jchar = Plain char | Esc char | EscU char char char char

fun render_jchar :: "jchar \<Rightarrow> string" where
  "render_jchar (Plain c) = [c]"
| "render_jchar (Esc c) = [backslash, c]"
| "render_jchar (EscU a b c d) = [backslash, CHR ''u'', a, b, c, d]"

definition isHex :: "char \<Rightarrow> bool" where
  "isHex c = (isDigit c \<or> c \<in> set ''abcdefABCDEF'')"

fun wf_jchar :: "jchar \<Rightarrow> bool" where
  "wf_jchar (Plain c) = ((32::nat) \<le> of_char c \<and> c \<noteq> quote \<and> c \<noteq> backslash)"
| "wf_jchar (Esc c) = (c \<in> set (quote # backslash # ''/bfnrt''))"
| "wf_jchar (EscU a b c d) = (isHex a \<and> isHex b \<and> isHex c \<and> isHex d)"

definition render_chars :: "jchar list \<Rightarrow> string" where
  "render_chars cs = concat (map render_jchar cs)"

text \<open>
  A JSON number: sign, integer part, optional fraction digits, optional exponent
  (the letter, the sign text and the digits).
\<close>

datatype jnumber = JNum bool string "string option" "(char \<times> string \<times> string) option"

definition render_frac :: "string option \<Rightarrow> string" where
  "render_frac fr = (case fr of None \<Rightarrow> [] | Some f \<Rightarrow> CHR ''.'' # f)"

definition wf_frac :: "string option \<Rightarrow> bool" where
  "wf_frac fr = (case fr of None \<Rightarrow> True | Some f \<Rightarrow> f \<noteq> [] \<and> list_all isDigit f)"

definition render_exp :: "(char \<times> string \<times> string) option \<Rightarrow> string" where
  "render_exp ex = (case ex of None \<Rightarrow> [] | Some (e, sg, ds) \<Rightarrow> e # sg @ ds)"

definition wf_exp :: "(char \<times> string \<times> string) option \<Rightarrow> bool" where
  "wf_exp ex =
     (case ex of None \<Rightarrow> True
      | Some (e, sg, ds) \<Rightarrow>
          (e = CHR ''e'' \<or> e = CHR ''E'') \<and> (sg = [] \<or> sg = ''+'' \<or> sg = ''-'')
          \<and> ds \<noteq> [] \<and> list_all isDigit ds)"

fun render_number :: "jnumber \<Rightarrow> string" where
  "render_number (JNum neg ip fr ex) =
     (if neg then ''-'' else []) @ ip @ render_frac fr @ render_exp ex"

text \<open>The integer part is a single \<^verbatim>\<open>0\<close> or starts with a nonzero digit.\<close>

fun wf_number :: "jnumber \<Rightarrow> bool" where
  "wf_number (JNum neg ip fr ex) =
     (ip \<noteq> [] \<and> list_all isDigit ip \<and> (hd ip \<noteq> CHR ''0'' \<or> length ip = 1)
      \<and> wf_frac fr \<and> wf_exp ex)"

text \<open>
  The byte after a number must not continue it: the scanner is greedy, and in a JSON
  text a number is followed by white space, a comma, a closing bracket or brace, or
  the end of the input.
\<close>

definition number_end :: "string \<Rightarrow> bool" where
  "number_end r = (r = [] \<or> (\<not> isDigit (hd r) \<and> hd r \<noteq> CHR ''.'' \<and> hd r \<noteq> CHR ''e'' \<and> hd r \<noteq> CHR ''E''))"

subsection \<open>Strings\<close>

lemma parseString_loop_plain:
  assumes "remaining p = c # r" "c \<noteq> quote" "c \<noteq> backslash"
  shows "parseString_loop start p = parseString_loop start (p\<lparr>pos := pos p + 1\<rparr>)"
  using remaining_Cons[OF assms(1)] assms(2,3) by (subst parseString_loop.simps) simp

lemma parseString_loop_escape:
  assumes "remaining p = backslash # r"
  shows "parseString_loop start p = parseString_loop start (p\<lparr>pos := pos p + 2\<rparr>)"
  using remaining_Cons[OF assms(1)] by (subst parseString_loop.simps) simp

lemma parseString_loop_quote:
  assumes "remaining p = quote # r"
  shows "parseString_loop start p =
    (TokenString, slice (data p) (start + 1) (pos p), p\<lparr>pos := pos p + 1\<rparr>)"
  using remaining_Cons[OF assms(1)] by (subst parseString_loop.simps) simp

lemma isHex_not_special: "isHex c \<Longrightarrow> c \<noteq> quote \<and> c \<noteq> backslash"
  by (auto simp: isHex_def isDigit_def)

lemma parseString_loop_chars:
  "list_all wf_jchar cs \<Longrightarrow> remaining p = render_chars cs @ quote # r \<Longrightarrow>
   parseString_loop start p =
     (TokenString, slice (data p) (start + 1) (pos p + length (render_chars cs)),
      p\<lparr>pos := pos p + length (render_chars cs) + 1\<rparr>)"
proof (induction cs arbitrary: p)
  case Nil
  then show ?case using parseString_loop_quote[of p r start] by (simp add: render_chars_def)
next
  case (Cons j cs)
  have tl: "render_chars (j # cs) = render_jchar j @ render_chars cs"
    by (simp add: render_chars_def)
  show ?case
  proof (cases j)
    case (Plain c)
    with Cons.prems tl have rem: "remaining p = c # render_chars cs @ quote # r"
      and c: "c \<noteq> quote" "c \<noteq> backslash" by auto
    let ?p1 = "p\<lparr>pos := pos p + 1\<rparr>"
    have r1: "remaining ?p1 = render_chars cs @ quote # r"
      using remaining_advance1[OF rem] by simp
    have "parseString_loop start p = parseString_loop start ?p1"
      by (rule parseString_loop_plain[OF rem c])
    also note Cons.IH[OF _ r1]
    finally show ?thesis using Cons.prems Plain tl by simp
  next
    case (Esc c)
    with Cons.prems tl have rem: "remaining p = backslash # c # render_chars cs @ quote # r" by auto
    let ?p1 = "p\<lparr>pos := pos p + 2\<rparr>"
    have r1: "remaining ?p1 = render_chars cs @ quote # r"
      using remaining_advance[of p "[backslash, c]" "render_chars cs @ quote # r"] rem by simp
    have "parseString_loop start p = parseString_loop start ?p1"
      by (rule parseString_loop_escape[OF rem])
    also note Cons.IH[OF _ r1]
    finally show ?thesis using Cons.prems Esc tl by simp
  next
    case (EscU a b c d)
    with Cons.prems tl have rem:
      "remaining p = backslash # CHR ''u'' # a # b # c # d # render_chars cs @ quote # r" by auto
    have hx: "a \<noteq> quote" "a \<noteq> backslash" "b \<noteq> quote" "b \<noteq> backslash"
      "c \<noteq> quote" "c \<noteq> backslash" "d \<noteq> quote" "d \<noteq> backslash"
      using Cons.prems EscU isHex_not_special by auto
    let ?p2 = "p\<lparr>pos := pos p + 2\<rparr>"
    let ?p3 = "?p2\<lparr>pos := pos ?p2 + 1\<rparr>"
    let ?p4 = "?p3\<lparr>pos := pos ?p3 + 1\<rparr>"
    let ?p5 = "?p4\<lparr>pos := pos ?p4 + 1\<rparr>"
    let ?p6 = "?p5\<lparr>pos := pos ?p5 + 1\<rparr>"
    have r2: "remaining ?p2 = a # b # c # d # render_chars cs @ quote # r"
      using remaining_advance[of p "[backslash, CHR ''u'']"] rem by simp
    have r3: "remaining ?p3 = b # c # d # render_chars cs @ quote # r"
      by (rule remaining_advance1[OF r2])
    have r4: "remaining ?p4 = c # d # render_chars cs @ quote # r"
      by (rule remaining_advance1[OF r3])
    have r5: "remaining ?p5 = d # render_chars cs @ quote # r"
      by (rule remaining_advance1[OF r4])
    have r6: "remaining ?p6 = render_chars cs @ quote # r"
      by (rule remaining_advance1[OF r5])
    have "parseString_loop start p = parseString_loop start ?p2"
      by (rule parseString_loop_escape[OF rem])
    also have "\<dots> = parseString_loop start ?p3"
      by (rule parseString_loop_plain[OF r2 hx(1,2)])
    also have "\<dots> = parseString_loop start ?p4"
      by (rule parseString_loop_plain[OF r3 hx(3,4)])
    also have "\<dots> = parseString_loop start ?p5"
      by (rule parseString_loop_plain[OF r4 hx(5,6)])
    also have "\<dots> = parseString_loop start ?p6"
      by (rule parseString_loop_plain[OF r5 hx(7,8)])
    also note Cons.IH[OF _ r6]
    finally show ?thesis using Cons.prems EscU tl by simp
  qed
qed

lemma parseString_remaining:
  assumes "list_all wf_jchar cs" "remaining p = quote # render_chars cs @ quote # r"
  shows "\<exists>v. parseString p = (TokenString, v, p\<lparr>pos := pos p + length (render_chars cs) + 2\<rparr>)"
proof -
  let ?p1 = "p\<lparr>pos := pos p + 1\<rparr>"
  have r1: "remaining ?p1 = render_chars cs @ quote # r"
    using remaining_advance1[OF assms(2)] by simp
  from parseString_loop_chars[OF assms(1) r1, of "pos p"] remaining_Cons[OF assms(2)]
  show ?thesis by (simp add: parseString_def)
qed

subsection \<open>Numbers\<close>

lemma isDigit_not_symbol:
  "isDigit c \<Longrightarrow> c \<noteq> CHR ''-'' \<and> c \<noteq> CHR ''+'' \<and> c \<noteq> CHR ''.'' \<and> c \<noteq> CHR ''e'' \<and> c \<noteq> CHR ''E''"
  by (auto simp: isDigit_def)

lemma remaining_head:
  "remaining p = r \<Longrightarrow> (r = [] \<and> pos p \<ge> length (data p)) \<or>
     (r \<noteq> [] \<and> pos p < length (data p) \<and> data p ! pos p = hd r)"
  using remaining_Nil[of p] remaining_Cons[of p "hd r" "tl r"] by (cases r) auto

lemma number_end_digit: "number_end r \<Longrightarrow> r = [] \<or> \<not> isDigit (hd r)"
  by (auto simp: number_end_def)

lemma parseNumber_exp_remaining:
  assumes wf: "wf_exp ex" and rem: "remaining p = render_exp ex @ r" and ne: "number_end r"
  shows "\<exists>v. parseNumber_exp start p = (TokenNumber, v, p\<lparr>pos := pos p + length (render_exp ex)\<rparr>)"
proof (cases ex)
  case None
  with rem have "remaining p = r" by (simp add: render_exp_def)
  from remaining_head[OF this] ne have
    "\<not> (pos p < length (data p) \<and> (data p ! pos p = CHR ''e'' \<or> data p ! pos p = CHR ''E''))"
    by (auto simp: number_end_def)
  then have "parseNumber_exp start p = (TokenNumber, slice (data p) start (pos p), p)"
    unfolding parseNumber_exp_def by (rule if_not_P)
  then show ?thesis using None by (simp add: render_exp_def)
next
  case (Some t)
  obtain e sg ds where t: "t = (e, sg, ds)" by (cases t) auto
  from wf Some t have e: "e = CHR ''e'' \<or> e = CHR ''E''" and sg: "sg = [] \<or> sg = ''+'' \<or> sg = ''-''"
    and ds: "ds \<noteq> []" "list_all isDigit ds" by (auto simp: wf_exp_def)
  obtain d0 ds' where dd: "ds = d0 # ds'" using ds by (cases ds) auto
  have d0: "isDigit d0" using ds dd by simp
  from rem Some t have rem0: "remaining p = e # sg @ ds @ r" by (simp add: render_exp_def)
  let ?p1 = "p\<lparr>pos := pos p + 1\<rparr>"
  have r1: "remaining ?p1 = sg @ ds @ r" by (rule remaining_advance1[OF rem0])
  have h0: "pos p < length (data p)" "data p ! pos p = e" using remaining_Cons[OF rem0] by auto
  define p2 where "p2 = (if pos ?p1 < length (data ?p1) \<and>
                     (data ?p1 ! pos ?p1 = CHR ''+'' \<or> data ?p1 ! pos ?p1 = CHR ''-'')
                  then ?p1\<lparr>pos := pos ?p1 + 1\<rparr> else ?p1)"
  have p2: "p2 = p\<lparr>pos := pos p + 1 + length sg\<rparr> \<and> remaining p2 = ds @ r"
  proof (cases "sg = []")
    case True
    with r1 dd have "remaining ?p1 = d0 # ds' @ r" by simp
    from remaining_Cons[OF this] isDigit_not_symbol[OF d0] have "p2 = ?p1" by (simp add: p2_def)
    with True r1 show ?thesis by simp
  next
    case False
    then obtain s where s: "sg = [s]" "s = CHR ''+'' \<or> s = CHR ''-''" using sg by auto
    with r1 have r1': "remaining ?p1 = s # ds @ r" by simp
    from remaining_Cons[OF r1'] s have "p2 = ?p1\<lparr>pos := pos ?p1 + 1\<rparr>" by (auto simp: p2_def)
    with remaining_advance1[OF r1'] s show ?thesis by simp
  qed
  then have p2a: "p2 = p\<lparr>pos := pos p + 1 + length sg\<rparr>" and p2b: "remaining p2 = ds @ r"
    by blast+
  have r2: "remaining p2 = d0 # ds' @ r" using p2b dd by simp
  have h2: "pos p2 < length (data p2)" "isDigit (data p2 ! pos p2)"
    using remaining_Cons[OF r2] d0 by auto
  have sd: "skipDigits p2 = p2\<lparr>pos := pos p2 + length ds\<rparr>"
    by (rule skipDigits_remaining[OF ds(2) p2b number_end_digit[OF ne]])
  have c0: "pos p < length (data p) \<and> (data p ! pos p = CHR ''e'' \<or> data p ! pos p = CHR ''E'')"
    using h0 e by auto
  have c2: "\<not> (pos p2 \<ge> length (data p2) \<or> \<not> isDigit (data p2 ! pos p2))"
    using h2 by auto
  have "parseNumber_exp start p =
      (TokenNumber, slice (data (skipDigits p2)) start (pos (skipDigits p2)), skipDigits p2)"
    unfolding parseNumber_exp_def Let_def p2_def[symmetric] if_P[OF c0] if_not_P[OF c2] ..
  moreover have "skipDigits p2 = p\<lparr>pos := pos p + length (render_exp ex)\<rparr>"
    unfolding sd using p2a Some t by (simp add: render_exp_def)
  ultimately show ?thesis by simp
qed

lemma parseNumber_frac_remaining:
  assumes wf: "wf_frac fr" "wf_exp ex" and rem: "remaining p = render_frac fr @ render_exp ex @ r"
    and ne: "number_end r"
  shows "\<exists>v. parseNumber_frac start p =
    (TokenNumber, v, p\<lparr>pos := pos p + length (render_frac fr) + length (render_exp ex)\<rparr>)"
proof (cases fr)
  case None
  with rem have rem0: "remaining p = render_exp ex @ r" by (simp add: render_frac_def)
  have "render_exp ex @ r = [] \<or> hd (render_exp ex @ r) \<noteq> CHR ''.''"
    using wf(2) ne by (cases ex) (auto simp: render_exp_def wf_exp_def number_end_def)
  with remaining_head[OF rem0] have
    "\<not> (pos p < length (data p) \<and> data p ! pos p = CHR ''.'')" by auto
  then have "parseNumber_frac start p = parseNumber_exp start p"
    unfolding parseNumber_frac_def by (rule if_not_P)
  with parseNumber_exp_remaining[OF wf(2) rem0 ne, of start] None show ?thesis
    by (simp add: render_frac_def)
next
  case (Some f)
  with wf have f: "f \<noteq> []" "list_all isDigit f" by (auto simp: wf_frac_def)
  obtain d0 f' where ff: "f = d0 # f'" using f by (cases f) auto
  have d0: "isDigit d0" using f ff by simp
  from rem Some have rem0: "remaining p = CHR ''.'' # f @ render_exp ex @ r"
    by (simp add: render_frac_def)
  let ?p1 = "p\<lparr>pos := pos p + 1\<rparr>"
  have r1: "remaining ?p1 = f @ render_exp ex @ r" by (rule remaining_advance1[OF rem0])
  then have r1': "remaining ?p1 = d0 # f' @ render_exp ex @ r" using ff by simp
  have h0: "pos p < length (data p)" "data p ! pos p = CHR ''.''"
    using remaining_Cons[OF rem0] by auto
  have h1: "pos ?p1 < length (data ?p1)" "isDigit (data ?p1 ! pos ?p1)"
    using remaining_Cons[OF r1'] d0 by auto
  have nd: "render_exp ex @ r = [] \<or> \<not> isDigit (hd (render_exp ex @ r))"
    using wf(2) ne by (cases ex) (auto simp: render_exp_def wf_exp_def number_end_def isDigit_def)
  have sd: "skipDigits ?p1 = ?p1\<lparr>pos := pos ?p1 + length f\<rparr>"
    by (rule skipDigits_remaining[OF f(2) r1 nd])
  have r2: "remaining (skipDigits ?p1) = render_exp ex @ r"
    using remaining_advance[OF r1] sd by simp
  have c0: "pos p < length (data p) \<and> data p ! pos p = CHR ''.''" using h0 by auto
  have c1: "\<not> (pos ?p1 \<ge> length (data ?p1) \<or> \<not> isDigit (data ?p1 ! pos ?p1))"
    using h1 by auto
  have "parseNumber_frac start p = parseNumber_exp start (skipDigits ?p1)"
    unfolding parseNumber_frac_def Let_def if_P[OF c0] if_not_P[OF c1] ..
  moreover obtain v where "parseNumber_exp start (skipDigits ?p1) =
      (TokenNumber, v, (skipDigits ?p1)\<lparr>pos := pos (skipDigits ?p1) + length (render_exp ex)\<rparr>)"
    using parseNumber_exp_remaining[OF wf(2) r2 ne, of start] by blast
  moreover have "(skipDigits ?p1)\<lparr>pos := pos (skipDigits ?p1) + length (render_exp ex)\<rparr>
      = p\<lparr>pos := pos p + length (render_frac fr) + length (render_exp ex)\<rparr>"
    unfolding sd using Some by (simp add: render_frac_def)
  ultimately show ?thesis by simp
qed

lemma parseNumber_remaining:
  assumes wf: "wf_number nm" and rem: "remaining p = render_number nm @ r" and ne: "number_end r"
  shows "\<exists>v. parseNumber p = (TokenNumber, v, p\<lparr>pos := pos p + length (render_number nm)\<rparr>)"
proof -
  obtain neg ip fr ex where nm: "nm = JNum neg ip fr ex" by (cases nm) auto
  from wf nm have ip: "ip \<noteq> []" "list_all isDigit ip"
    and wff: "wf_frac fr" "wf_exp ex"
    by simp_all
  have len: "length (render_number nm) =
      (if neg then 1 else 0) + length ip + length (render_frac fr) + length (render_exp ex)"
    using nm by simp
  obtain d0 ip' where ii: "ip = d0 # ip'" using ip by (cases ip) auto
  have d0: "isDigit d0" using ip ii by simp
  define T where "T = render_frac fr @ render_exp ex @ r"
  define p1 where "p1 = (if pos p < length (data p) \<and> data p ! pos p = CHR ''-''
                then p\<lparr>pos := pos p + 1\<rparr> else p)"
  have p1: "p1 = p\<lparr>pos := pos p + (if neg then 1 else 0)\<rparr> \<and> remaining p1 = d0 # ip' @ T"
  proof (cases neg)
    case True
    with rem nm ii have r0: "remaining p = CHR ''-'' # d0 # ip' @ T"
      by (simp add: T_def)
    from remaining_Cons[OF r0] have "p1 = p\<lparr>pos := pos p + 1\<rparr>" by (simp add: p1_def)
    with remaining_advance1[OF r0] True show ?thesis by simp
  next
    case False
    with rem nm ii have r0: "remaining p = d0 # ip' @ T"
      by (simp add: T_def)
    from remaining_Cons[OF r0] isDigit_not_symbol[OF d0] have "p1 = p" by (simp add: p1_def)
    with r0 False show ?thesis by simp
  qed
  then have p1a: "p1 = p\<lparr>pos := pos p + (if neg then 1 else 0)\<rparr>"
    and r1: "remaining p1 = d0 # ip' @ T" by blast+
  have h1: "pos p1 < length (data p1)" "isDigit (data p1 ! pos p1)"
    using remaining_Cons[OF r1] d0 by auto
  let ?p2 = "p1\<lparr>pos := pos p1 + 1\<rparr>"
  have r2: "remaining ?p2 = ip' @ T" by (rule remaining_advance1[OF r1])
  have nd: "T = [] \<or> \<not> isDigit (hd T)"
  proof (cases fr)
    case (Some f)
    then show ?thesis by (simp add: T_def render_frac_def isDigit_def)
  next
    case None
    show ?thesis
    proof (cases ex)
      case (Some t)
      with None wff(2) show ?thesis
        by (cases t) (auto simp: T_def render_frac_def render_exp_def wf_exp_def isDigit_def)
    next
      case ex: None
      with None ne show ?thesis
        by (auto simp: T_def render_frac_def render_exp_def number_end_def)
    qed
  qed
  have ipd: "list_all isDigit ip'" using ip ii by simp
  have sd: "skipDigits ?p2 = ?p2\<lparr>pos := pos ?p2 + length ip'\<rparr>"
    by (rule skipDigits_remaining[OF ipd r2 nd])
  have r3: "remaining (skipDigits ?p2) = render_frac fr @ render_exp ex @ r"
    using remaining_advance[OF r2] sd by (simp add: T_def)
  have c1: "\<not> (pos p1 \<ge> length (data p1) \<or> \<not> isDigit (data p1 ! pos p1))"
    using h1 by auto
  have "parseNumber p = parseNumber_frac (pos p) (skipDigits ?p2)"
    unfolding parseNumber_def Let_def p1_def[symmetric] if_not_P[OF c1] ..
  moreover obtain v where "parseNumber_frac (pos p) (skipDigits ?p2) =
      (TokenNumber, v, (skipDigits ?p2)\<lparr>pos := pos (skipDigits ?p2)
          + length (render_frac fr) + length (render_exp ex)\<rparr>)"
    using parseNumber_frac_remaining[OF wff r3 ne, of "pos p"] by blast
  moreover have "(skipDigits ?p2)\<lparr>pos := pos (skipDigits ?p2)
          + length (render_frac fr) + length (render_exp ex)\<rparr>
      = p\<lparr>pos := pos p + length (render_number nm)\<rparr>"
    unfolding sd len using p1a ii by simp
  ultimately show ?thesis by simp
qed

subsection \<open>Values\<close>

text \<open>
  A JSON value as a syntax tree that keeps the insignificant white space: \<open>JArray w es\<close>
  is \<^verbatim>\<open>[\<close>, the white space \<open>w\<close>, the elements separated by commas, \<^verbatim>\<open>]\<close>; an element
  is a value with white space before and after it; an object member is a key string and
  a value with white space around the key, the colon and the value. \<open>render\<close> is the
  text of a tree, and the texts of the well-formed trees are the values of RFC 8259.
\<close>

datatype json =
    JNull | JTrue | JFalse
  | JNumber jnumber
  | JString "jchar list"
  | JArray string "jelem list"
  | JObject string "jmember list"
and jelem = JElem string json string
and jmember = JMember string "jchar list" string string json string

fun sep_commas :: "string list \<Rightarrow> string" where
  "sep_commas [] = []"
| "sep_commas [x] = x"
| "sep_commas (x # y # ys) = x @ CHR '','' # sep_commas (y # ys)"

fun render :: "json \<Rightarrow> string"
  and render_elem :: "jelem \<Rightarrow> string"
  and render_member :: "jmember \<Rightarrow> string" where
  "render JNull = ''null''"
| "render JTrue = ''true''"
| "render JFalse = ''false''"
| "render (JNumber n) = render_number n"
| "render (JString cs) = quote # render_chars cs @ [quote]"
| "render (JArray w es) = CHR ''['' # w @ sep_commas (map render_elem es) @ '']''"
| "render (JObject w ms) = CHR ''{'' # w @ sep_commas (map render_member ms) @ ''}''"
| "render_elem (JElem a v b) = a @ render v @ b"
| "render_member (JMember a k b c v d) =
     a @ quote # render_chars k @ quote # b @ CHR '':'' # c @ render v @ d"

fun wf_json :: "json \<Rightarrow> bool"
  and wf_elem :: "jelem \<Rightarrow> bool"
  and wf_member :: "jmember \<Rightarrow> bool" where
  "wf_json JNull = True"
| "wf_json JTrue = True"
| "wf_json JFalse = True"
| "wf_json (JNumber n) = wf_number n"
| "wf_json (JString cs) = list_all wf_jchar cs"
| "wf_json (JArray w es) = (list_all isWhitespace w \<and> list_all wf_elem es)"
| "wf_json (JObject w ms) = (list_all isWhitespace w \<and> list_all wf_member ms)"
| "wf_elem (JElem a v b) = (list_all isWhitespace a \<and> wf_json v \<and> list_all isWhitespace b)"
| "wf_member (JMember a k b c v d) =
     (list_all isWhitespace a \<and> list_all wf_jchar k \<and> list_all isWhitespace b
      \<and> list_all isWhitespace c \<and> wf_json v \<and> list_all isWhitespace d)"

text \<open>Only a number can be continued by the byte that follows it.\<close>

fun value_end :: "json \<Rightarrow> string \<Rightarrow> bool" where
  "value_end (JNumber n) r = number_end r"
| "value_end j r = True"

subsection \<open>Successful runs of skipValue and of its loops\<close>

definition skipsV :: "Parser \<Rightarrow> Parser \<Rightarrow> bool" where
  "skipsV p p' = (\<exists>n. skipValue_fuel n p = Some (True, p'))"

definition skipsO :: "Parser \<Rightarrow> Parser \<Rightarrow> bool" where
  "skipsO p p' = (\<exists>n. skipObject_fuel n p = Some (True, p'))"

definition skipsA :: "Parser \<Rightarrow> Parser \<Rightarrow> bool" where
  "skipsA p p' = (\<exists>n. skipArray_fuel n p = Some (True, p'))"

lemma skipsV_skipValue: "skipsV p p' \<Longrightarrow> skipValue p = Some (True, p')"
  unfolding skipsV_def using skipValue_fuel_eq by blast

lemma skipsA_close:
  assumes "q = skipWhitespace p" "pos q < length (data q)" "data q ! pos q = CHR '']''"
  shows "skipsA p (q\<lparr>pos := pos q + 1\<rparr>)"
  unfolding skipsA_def using skipArray_fuel_close[of p 0] assms by blast

lemma skipsA_comma:
  assumes "q = skipWhitespace p" "pos q < length (data q)" "data q ! pos q = CHR '',''"
    "skipsA (q\<lparr>pos := pos q + 1\<rparr>) t"
  shows "skipsA p t"
proof -
  from assms(4) obtain n where "skipArray_fuel n (q\<lparr>pos := pos q + 1\<rparr>) = Some (True, t)"
    unfolding skipsA_def by blast
  with skipArray_fuel_comma[of p n] assms(1-3) have "skipArray_fuel (Suc n) p = Some (True, t)"
    by simp
  then show ?thesis unfolding skipsA_def by blast
qed

lemma skipsA_elem:
  assumes "q = skipWhitespace p" "pos q < length (data q)"
    "data q ! pos q \<noteq> CHR '']''" "data q ! pos q \<noteq> CHR '',''"
    "skipsV q p3" "skipsA p3 t"
  shows "skipsA p t"
proof -
  from assms(5) obtain n1 where n1: "skipValue_fuel n1 q = Some (True, p3)"
    unfolding skipsV_def by blast
  from assms(6) obtain n2 where n2: "skipArray_fuel n2 p3 = Some (True, t)"
    unfolding skipsA_def by blast
  define n where "n = max n1 n2"
  have a: "skipValue_fuel n q = Some (True, p3)"
    using skipValue_fuel_le[OF _ n1, of n] by (simp add: n_def)
  have b: "skipArray_fuel n p3 = Some (True, t)"
    using skipArray_fuel_le[OF _ n2, of n] by (simp add: n_def)
  have "skipArray_fuel (Suc n) p = Some (True, t)"
    using skipArray_fuel_elem[of p n] assms(1-4) a b by simp
  then show ?thesis unfolding skipsA_def by blast
qed

lemma skipsO_close:
  assumes "q = skipWhitespace p" "pos q < length (data q)" "data q ! pos q = CHR ''}''"
  shows "skipsO p (q\<lparr>pos := pos q + 1\<rparr>)"
  unfolding skipsO_def using skipObject_fuel_close[of p 0] assms by blast

lemma skipsO_comma:
  assumes "q = skipWhitespace p" "pos q < length (data q)" "data q ! pos q = CHR '',''"
    "skipsO (q\<lparr>pos := pos q + 1\<rparr>) t"
  shows "skipsO p t"
proof -
  from assms(4) obtain n where "skipObject_fuel n (q\<lparr>pos := pos q + 1\<rparr>) = Some (True, t)"
    unfolding skipsO_def by blast
  with skipObject_fuel_comma[of p n] assms(1-3) have "skipObject_fuel (Suc n) p = Some (True, t)"
    by simp
  then show ?thesis unfolding skipsO_def by blast
qed

lemma skipsO_member:
  assumes "q = skipWhitespace p" "pos q < length (data q)"
    "data q ! pos q \<noteq> CHR ''}''" "data q ! pos q \<noteq> CHR '',''"
    "parseString q = (TokenString, kv, p1)" "p2 = skipWhitespace p1"
    "pos p2 < length (data p2)" "data p2 ! pos p2 = CHR '':''"
    "skipsV (p2\<lparr>pos := pos p2 + 1\<rparr>) p3" "skipsO p3 t"
  shows "skipsO p t"
proof -
  from assms(9) obtain n1 where n1: "skipValue_fuel n1 (p2\<lparr>pos := pos p2 + 1\<rparr>) = Some (True, p3)"
    unfolding skipsV_def by blast
  from assms(10) obtain n2 where n2: "skipObject_fuel n2 p3 = Some (True, t)"
    unfolding skipsO_def by blast
  define n where "n = max n1 n2"
  have a: "skipValue_fuel n (p2\<lparr>pos := pos p2 + 1\<rparr>) = Some (True, p3)"
    using skipValue_fuel_le[OF _ n1, of n] by (simp add: n_def)
  have b: "skipObject_fuel n p3 = Some (True, t)"
    using skipObject_fuel_le[OF _ n2, of n] by (simp add: n_def)
  have "skipObject_fuel (Suc n) p = Some (True, t)"
    using skipObject_fuel_member[of p kv p1 n] assms(1-8) a b by simp
  then show ?thesis unfolding skipsO_def by blast
qed

lemma skipsV_object:
  assumes "q = skipWhitespace p" "pos q < length (data q)" "data q ! pos q = CHR ''{''"
    "skipsO (q\<lparr>pos := pos q + 1\<rparr>) t"
  shows "skipsV p t"
proof -
  from assms(4) obtain n where "skipObject_fuel n (q\<lparr>pos := pos q + 1\<rparr>) = Some (True, t)"
    unfolding skipsO_def by blast
  with assms(1-3) have "skipValue_fuel (Suc n) p = Some (True, t)"
    by (simp add: Let_def)
  then show ?thesis unfolding skipsV_def by blast
qed

lemma skipsV_array:
  assumes "q = skipWhitespace p" "pos q < length (data q)" "data q ! pos q = CHR ''[''"
    "skipsA (q\<lparr>pos := pos q + 1\<rparr>) t"
  shows "skipsV p t"
proof -
  from assms(4) obtain n where "skipArray_fuel n (q\<lparr>pos := pos q + 1\<rparr>) = Some (True, t)"
    unfolding skipsA_def by blast
  with assms(1-3) have "skipValue_fuel (Suc n) p = Some (True, t)"
    by (simp add: Let_def)
  then show ?thesis unfolding skipsV_def by blast
qed

lemma skipsV_string:
  assumes "q = skipWhitespace p" "pos q < length (data q)" "data q ! pos q = quote"
    "parseString q = (TokenString, v, t)"
  shows "skipsV p t"
proof -
  from assms have "skipValue_fuel (Suc 0) p = Some (True, t)"
    by (simp add: Let_def)
  then show ?thesis unfolding skipsV_def by blast
qed

lemma skipsV_true:
  assumes "q = skipWhitespace p" "pos q < length (data q)" "data q ! pos q = CHR ''t''"
    "matchLiteral ''true'' q = (True, t)"
  shows "skipsV p t"
proof -
  from assms have "skipValue_fuel (Suc 0) p = Some (True, t)"
    by (simp add: Let_def)
  then show ?thesis unfolding skipsV_def by blast
qed

lemma skipsV_false:
  assumes "q = skipWhitespace p" "pos q < length (data q)" "data q ! pos q = CHR ''f''"
    "matchLiteral ''false'' q = (True, t)"
  shows "skipsV p t"
proof -
  from assms have "skipValue_fuel (Suc 0) p = Some (True, t)"
    by (simp add: Let_def)
  then show ?thesis unfolding skipsV_def by blast
qed

lemma skipsV_null:
  assumes "q = skipWhitespace p" "pos q < length (data q)" "data q ! pos q = CHR ''n''"
    "matchLiteral ''null'' q = (True, t)"
  shows "skipsV p t"
proof -
  from assms have "skipValue_fuel (Suc 0) p = Some (True, t)"
    by (simp add: Let_def)
  then show ?thesis unfolding skipsV_def by blast
qed

lemma skipsV_number:
  assumes "q = skipWhitespace p" "pos q < length (data q)"
    "data q ! pos q = CHR ''-'' \<or> isDigit (data q ! pos q)"
    "parseNumber q = (TokenNumber, v, t)"
  shows "skipsV p t"
proof -
  have "data q ! pos q \<noteq> CHR ''{''" "data q ! pos q \<noteq> CHR ''[''" "data q ! pos q \<noteq> quote"
    "data q ! pos q \<noteq> CHR ''t''" "data q ! pos q \<noteq> CHR ''f''" "data q ! pos q \<noteq> CHR ''n''"
    using assms(3) by (auto simp: isDigit_def)
  with assms have "skipValue_fuel (Suc 0) p = Some (True, t)"
    by (simp add: Let_def)
  then show ?thesis unfolding skipsV_def by blast
qed

subsection \<open>The main induction\<close>

definition value_start :: "char \<Rightarrow> bool" where
  "value_start c = (c = CHR ''{'' \<or> c = CHR ''['' \<or> c = quote \<or> c = CHR ''t'' \<or> c = CHR ''f''
     \<or> c = CHR ''n'' \<or> c = CHR ''-'' \<or> isDigit c)"

lemma value_start_not:
  "value_start c \<Longrightarrow> \<not> isWhitespace c \<and> c \<noteq> CHR '']'' \<and> c \<noteq> CHR '','' \<and> c \<noteq> CHR ''}''"
  by (auto simp: value_start_def isWhitespace_def isDigit_def)

lemma render_start: "wf_json j \<Longrightarrow> render j \<noteq> [] \<and> value_start (hd (render j))"
proof (cases j)
  case (JNumber n)
  assume wf: "wf_json j"
  obtain neg ip fr ex where n: "n = JNum neg ip fr ex" by (cases n) auto
  with wf JNumber have "ip \<noteq> []" "list_all isDigit ip" by auto
  then have "isDigit (hd ip)" by (cases ip) auto
  with JNumber n \<open>ip \<noteq> []\<close> show ?thesis by (auto simp: value_start_def)
qed (auto simp: value_start_def)

fun elem_value :: "jelem \<Rightarrow> json" where
  "elem_value (JElem a v b) = v"

fun member_value :: "jmember \<Rightarrow> json" where
  "member_value (JMember a k b c v d) = v"

definition skips_ok :: "json \<Rightarrow> bool" where
  "skips_ok j = (\<forall>p w r. wf_json j \<longrightarrow> list_all isWhitespace w \<longrightarrow>
      remaining p = w @ render j @ r \<longrightarrow> value_end j r \<longrightarrow>
      skipsV p (p\<lparr>pos := pos p + length w + length (render j)\<rparr>))"

lemma skips_okD:
  "skips_ok j \<Longrightarrow> wf_json j \<Longrightarrow> list_all isWhitespace w \<Longrightarrow>
   remaining p = w @ render j @ r \<Longrightarrow> value_end j r \<Longrightarrow>
   skipsV p (p\<lparr>pos := pos p + length w + length (render j)\<rparr>)"
  unfolding skips_ok_def by blast

text \<open>The elements after the first, each with its comma in front.\<close>

definition render_tail :: "string list \<Rightarrow> string" where
  "render_tail xs = concat (map (\<lambda>x. CHR '','' # x) xs)"

lemma sep_commas_tail: "sep_commas (x # xs) = x @ render_tail xs"
  by (induction xs arbitrary: x) (auto simp: render_tail_def)

lemma render_tail_Cons: "render_tail (x # xs) = CHR '','' # x @ render_tail xs"
  by (simp add: render_tail_def)

definition delimiter :: "string \<Rightarrow> bool" where
  "delimiter t = (t \<noteq> [] \<and> (hd t = CHR '','' \<or> hd t = CHR '']'' \<or> hd t = CHR ''}''))"

lemma delimiter_end: "list_all isWhitespace b \<Longrightarrow> delimiter t \<Longrightarrow> value_end v (b @ t)"
  by (cases v; cases b) (auto simp: delimiter_def number_end_def isWhitespace_def isDigit_def)

lemma delimiter_not_ws: "delimiter t \<Longrightarrow> t = [] \<or> \<not> isWhitespace (hd t)"
  by (auto simp: delimiter_def isWhitespace_def)

lemma skipWhitespace_to:
  assumes "list_all isWhitespace w" "remaining p = w @ c # r" "\<not> isWhitespace c"
  shows "skipWhitespace p = p\<lparr>pos := pos p + length w\<rparr>
    \<and> remaining (p\<lparr>pos := pos p + length w\<rparr>) = c # r
    \<and> pos p + length w < length (data p) \<and> data p ! (pos p + length w) = c"
proof -
  have a: "skipWhitespace p = p\<lparr>pos := pos p + length w\<rparr>"
    using skipWhitespace_remaining[OF assms(1,2)] assms(3) by simp
  have b: "remaining (p\<lparr>pos := pos p + length w\<rparr>) = c # r"
    by (rule remaining_advance[OF assms(2)])
  from remaining_Cons[OF b] a b show ?thesis by simp
qed

text \<open>One array element and the rest of the loop.\<close>

lemma array_elem_step:
  assumes ok: "skips_ok v" and wf: "wf_json v" "list_all isWhitespace a" "list_all isWhitespace b"
    and rem: "remaining p = a @ render v @ b @ t" and t: "delimiter t"
    and rest: "skipsA (p\<lparr>pos := pos p + length a + length (render v)\<rparr>) e"
  shows "skipsA p e"
proof -
  obtain c cs where rv: "render v = c # cs" and c: "value_start c"
    using render_start[OF wf(1)] by (cases "render v") auto
  let ?q = "p\<lparr>pos := pos p + length a\<rparr>"
  from rem rv have rem': "remaining p = a @ c # (cs @ b @ t)" by simp
  from skipWhitespace_to[OF wf(2) rem'] value_start_not[OF c]
  have q: "skipWhitespace p = ?q" "remaining ?q = c # (cs @ b @ t)"
    "pos ?q < length (data ?q)" "data ?q ! pos ?q = c" by auto
  have rq: "remaining ?q = [] @ render v @ (b @ t)" using q(2) rv by simp
  have "skipsV ?q (?q\<lparr>pos := pos ?q + length ([]::string) + length (render v)\<rparr>)"
    by (rule skips_okD[OF ok wf(1) _ rq delimiter_end[OF wf(3) t]]) simp
  then have sv: "skipsV ?q (p\<lparr>pos := pos p + length a + length (render v)\<rparr>)" by simp
  show ?thesis
    using skipsA_elem[OF q(1)[symmetric] q(3) _ _ sv rest] value_start_not[OF c] q(4) by simp
qed

lemma array_tail:
  assumes "\<forall>x\<in>set es. skips_ok (elem_value x)" "list_all wf_elem es"
  shows "list_all isWhitespace w \<Longrightarrow>
    remaining p = w @ render_tail (map render_elem es) @ CHR '']'' # r \<Longrightarrow>
    skipsA p (p\<lparr>pos := pos p + length w + length (render_tail (map render_elem es)) + 1\<rparr>)"
  using assms
proof (induction es arbitrary: p w)
  case Nil
  then have rem: "remaining p = w @ CHR '']'' # r" by (simp add: render_tail_def)
  have "\<not> isWhitespace (CHR '']'')" by (simp add: isWhitespace_def)
  from skipWhitespace_to[OF Nil.prems(1) rem this]
  have q: "p\<lparr>pos := pos p + length w\<rparr> = skipWhitespace p"
    "pos (p\<lparr>pos := pos p + length w\<rparr>) < length (data (p\<lparr>pos := pos p + length w\<rparr>))"
    "data (p\<lparr>pos := pos p + length w\<rparr>) ! pos (p\<lparr>pos := pos p + length w\<rparr>) = CHR '']''"
    by auto
  from skipsA_close[OF q] show ?case by (simp add: render_tail_def)
next
  case (Cons x es)
  obtain a v b where x: "x = JElem a v b" by (cases x) auto
  from Cons.prems x have wf: "wf_json v" "list_all isWhitespace a" "list_all isWhitespace b"
    and ok: "skips_ok v" by auto
  define T where "T = render_tail (map render_elem es) @ CHR '']'' # r"
  have Td: "delimiter T"
    by (cases es) (auto simp: T_def delimiter_def render_tail_def)
  from Cons.prems(2) x have rem: "remaining p = w @ CHR '','' # (a @ render v @ b @ T)"
    by (simp add: render_tail_Cons T_def)
  have nws: "\<not> isWhitespace (CHR '','')" by (simp add: isWhitespace_def)
  let ?q = "p\<lparr>pos := pos p + length w\<rparr>"
  from skipWhitespace_to[OF Cons.prems(1) rem nws]
  have q: "?q = skipWhitespace p" "pos ?q < length (data ?q)" "data ?q ! pos ?q = CHR '',''"
    and rq: "remaining ?q = CHR '','' # (a @ render v @ b @ T)"
    by auto
  let ?q1 = "?q\<lparr>pos := pos ?q + 1\<rparr>"
  have rq1: "remaining ?q1 = a @ render v @ b @ T" by (rule remaining_advance1[OF rq])
  let ?p3 = "?q1\<lparr>pos := pos ?q1 + length a + length (render v)\<rparr>"
  have rp3: "remaining ?p3 = b @ render_tail (map render_elem es) @ CHR '']'' # r"
    using remaining_advance[of ?q1 "a @ render v" "b @ T"] rq1 by (simp add: T_def add.assoc)
  have "skipsA ?p3 (?p3\<lparr>pos := pos ?p3 + length b + length (render_tail (map render_elem es)) + 1\<rparr>)"
    using Cons.IH[OF wf(3) rp3] Cons.prems(3,4) by simp
  from array_elem_step[OF ok wf rq1 Td this]
  have "skipsA ?q1 (?p3\<lparr>pos := pos ?p3 + length b + length (render_tail (map render_elem es)) + 1\<rparr>)" .
  from skipsA_comma[OF q this] show ?case
    using x by (simp add: render_tail_Cons add.assoc)
qed

text \<open>One object member and the rest of the loop.\<close>

lemma object_member_step:
  assumes ok: "skips_ok v" and wf: "wf_json v" "list_all isWhitespace a" "list_all wf_jchar k"
      "list_all isWhitespace b" "list_all isWhitespace c" "list_all isWhitespace d"
    and rem: "remaining p = render_member (JMember a k b c v d) @ t" and t: "delimiter t"
    and rest: "skipsO (p\<lparr>pos := pos p + length a + (length (render_chars k) + 2) + length b + 1
        + length c + length (render v)\<rparr>) e"
  shows "skipsO p e"
proof -
  define R where "R = b @ CHR '':'' # c @ render v @ d @ t"
  from rem have rem': "remaining p = a @ quote # (render_chars k @ quote # R)"
    by (simp add: R_def)
  have nq: "\<not> isWhitespace quote" by (simp add: isWhitespace_def)
  let ?q = "p\<lparr>pos := pos p + length a\<rparr>"
  from skipWhitespace_to[OF wf(2) rem' nq]
  have q: "?q = skipWhitespace p" "pos ?q < length (data ?q)" "data ?q ! pos ?q = quote"
    and rq: "remaining ?q = quote # render_chars k @ quote # R" by auto
  let ?p1 = "?q\<lparr>pos := pos ?q + length (render_chars k) + 2\<rparr>"
  obtain kv where ps: "parseString ?q = (TokenString, kv, ?p1)"
    using parseString_remaining[OF wf(3) rq] by blast
  have rp1: "remaining ?p1 = b @ CHR '':'' # (c @ render v @ d @ t)"
    using remaining_advance[of ?q "quote # render_chars k @ [quote]" R] rq
    by (simp add: R_def add.assoc)
  have nc: "\<not> isWhitespace (CHR '':'')" by (simp add: isWhitespace_def)
  let ?p2 = "?p1\<lparr>pos := pos ?p1 + length b\<rparr>"
  from skipWhitespace_to[OF wf(4) rp1 nc]
  have p2: "?p2 = skipWhitespace ?p1" "pos ?p2 < length (data ?p2)" "data ?p2 ! pos ?p2 = CHR '':''"
    and rp2: "remaining ?p2 = CHR '':'' # (c @ render v @ d @ t)" by auto
  let ?p2' = "?p2\<lparr>pos := pos ?p2 + 1\<rparr>"
  have rp2': "remaining ?p2' = c @ render v @ (d @ t)"
    using remaining_advance1[OF rp2] by simp
  have sv: "skipsV ?p2' (?p2'\<lparr>pos := pos ?p2' + length c + length (render v)\<rparr>)"
    by (rule skips_okD[OF ok wf(1) wf(5) rp2' delimiter_end[OF wf(6) t]])
  have eq: "?p2'\<lparr>pos := pos ?p2' + length c + length (render v)\<rparr> =
      p\<lparr>pos := pos p + length a + (length (render_chars k) + 2) + length b + 1
        + length c + length (render v)\<rparr>" by (simp add: add.assoc)
  have ne: "data ?q ! pos ?q \<noteq> CHR ''}''" "data ?q ! pos ?q \<noteq> CHR '',''"
    using q(3) by auto
  show ?thesis
    by (rule skipsO_member[OF q(1) q(2) ne ps p2 sv rest[folded eq]])
qed

lemma object_tail:
  assumes "\<forall>x\<in>set ms. skips_ok (member_value x)" "list_all wf_member ms"
  shows "list_all isWhitespace w \<Longrightarrow>
    remaining p = w @ render_tail (map render_member ms) @ CHR ''}'' # r \<Longrightarrow>
    skipsO p (p\<lparr>pos := pos p + length w + length (render_tail (map render_member ms)) + 1\<rparr>)"
  using assms
proof (induction ms arbitrary: p w)
  case Nil
  then have rem: "remaining p = w @ CHR ''}'' # r" by (simp add: render_tail_def)
  have "\<not> isWhitespace (CHR ''}'')" by (simp add: isWhitespace_def)
  from skipWhitespace_to[OF Nil.prems(1) rem this]
  have q: "p\<lparr>pos := pos p + length w\<rparr> = skipWhitespace p"
    "pos (p\<lparr>pos := pos p + length w\<rparr>) < length (data (p\<lparr>pos := pos p + length w\<rparr>))"
    "data (p\<lparr>pos := pos p + length w\<rparr>) ! pos (p\<lparr>pos := pos p + length w\<rparr>) = CHR ''}''"
    by auto
  from skipsO_close[OF q] show ?case by (simp add: render_tail_def)
next
  case (Cons x ms)
  obtain a k b c v d where x: "x = JMember a k b c v d" by (cases x) auto
  from Cons.prems x have wf: "wf_json v" "list_all isWhitespace a" "list_all wf_jchar k"
      "list_all isWhitespace b" "list_all isWhitespace c" "list_all isWhitespace d"
    and ok: "skips_ok v" by auto
  define T where "T = render_tail (map render_member ms) @ CHR ''}'' # r"
  have Td: "delimiter T"
    by (cases ms) (auto simp: T_def delimiter_def render_tail_def)
  from Cons.prems(2) x have rem: "remaining p = w @ CHR '','' # (render_member (JMember a k b c v d) @ T)"
    by (simp add: render_tail_Cons T_def)
  have nws: "\<not> isWhitespace (CHR '','')" by (simp add: isWhitespace_def)
  let ?q = "p\<lparr>pos := pos p + length w\<rparr>"
  from skipWhitespace_to[OF Cons.prems(1) rem nws]
  have q: "?q = skipWhitespace p" "pos ?q < length (data ?q)" "data ?q ! pos ?q = CHR '',''"
    and rq: "remaining ?q = CHR '','' # (render_member (JMember a k b c v d) @ T)"
    by auto
  let ?q1 = "?q\<lparr>pos := pos ?q + 1\<rparr>"
  have rq1: "remaining ?q1 = render_member (JMember a k b c v d) @ T"
    by (rule remaining_advance1[OF rq])
  let ?p3 = "?q1\<lparr>pos := pos ?q1 + length a + (length (render_chars k) + 2) + length b + 1
        + length c + length (render v)\<rparr>"
  have len: "length (render_member (JMember a k b c v d)) =
      length a + (length (render_chars k) + 2) + length b + 1 + length c + length (render v) + length d"
    by simp
  have rp3: "remaining ?p3 = d @ render_tail (map render_member ms) @ CHR ''}'' # r"
    using remaining_advance[of ?q1 "a @ quote # render_chars k @ quote # b @ CHR '':'' # c @ render v" "d @ T"]
      rq1 by (simp add: T_def add.assoc)
  have "skipsO ?p3 (?p3\<lparr>pos := pos ?p3 + length d + length (render_tail (map render_member ms)) + 1\<rparr>)"
    using Cons.IH[OF wf(6) rp3] Cons.prems(3,4) by simp
  from object_member_step[OF ok wf rq1 Td this]
  have "skipsO ?q1 (?p3\<lparr>pos := pos ?p3 + length d + length (render_tail (map render_member ms)) + 1\<rparr>)" .
  from skipsO_comma[OF q this] show ?case
    using x by (simp add: render_tail_Cons add.assoc)
qed

lemma skips_ok_all: "skips_ok j"
proof (induction j rule: json.induct[where ?P2.0 = "\<lambda>x. skips_ok (elem_value x)"
      and ?P3.0 = "\<lambda>x. skips_ok (member_value x)"])
  case JNull
  show ?case unfolding skips_ok_def
  proof (intro allI impI)
    fix p w r
    assume w: "list_all isWhitespace w" and rem: "remaining p = w @ render JNull @ r"
    have rem': "remaining p = w @ CHR ''n'' # (''ull'' @ r)" using rem by simp
    have nws: "\<not> isWhitespace (CHR ''n'')" by (simp add: isWhitespace_def)
    let ?q = "p\<lparr>pos := pos p + length w\<rparr>"
    from skipWhitespace_to[OF w rem' nws]
    have q: "?q = skipWhitespace p" "pos ?q < length (data ?q)" "data ?q ! pos ?q = CHR ''n''"
      and rq: "remaining ?q = ''null'' @ r" by auto
    from matchLiteral_remaining[OF rq] skipsV_null[OF q]
    show "skipsV p (p\<lparr>pos := pos p + length w + length (render JNull)\<rparr>)"
      by (simp add: add.assoc)
  qed
next
  case JTrue
  show ?case unfolding skips_ok_def
  proof (intro allI impI)
    fix p w r
    assume w: "list_all isWhitespace w" and rem: "remaining p = w @ render JTrue @ r"
    have rem': "remaining p = w @ CHR ''t'' # (''rue'' @ r)" using rem by simp
    have nws: "\<not> isWhitespace (CHR ''t'')" by (simp add: isWhitespace_def)
    let ?q = "p\<lparr>pos := pos p + length w\<rparr>"
    from skipWhitespace_to[OF w rem' nws]
    have q: "?q = skipWhitespace p" "pos ?q < length (data ?q)" "data ?q ! pos ?q = CHR ''t''"
      and rq: "remaining ?q = ''true'' @ r" by auto
    from matchLiteral_remaining[OF rq] skipsV_true[OF q]
    show "skipsV p (p\<lparr>pos := pos p + length w + length (render JTrue)\<rparr>)"
      by (simp add: add.assoc)
  qed
next
  case JFalse
  show ?case unfolding skips_ok_def
  proof (intro allI impI)
    fix p w r
    assume w: "list_all isWhitespace w" and rem: "remaining p = w @ render JFalse @ r"
    have rem': "remaining p = w @ CHR ''f'' # (''alse'' @ r)" using rem by simp
    have nws: "\<not> isWhitespace (CHR ''f'')" by (simp add: isWhitespace_def)
    let ?q = "p\<lparr>pos := pos p + length w\<rparr>"
    from skipWhitespace_to[OF w rem' nws]
    have q: "?q = skipWhitespace p" "pos ?q < length (data ?q)" "data ?q ! pos ?q = CHR ''f''"
      and rq: "remaining ?q = ''false'' @ r" by auto
    from matchLiteral_remaining[OF rq] skipsV_false[OF q]
    show "skipsV p (p\<lparr>pos := pos p + length w + length (render JFalse)\<rparr>)"
      by (simp add: add.assoc)
  qed
next
  case (JNumber n)
  show ?case unfolding skips_ok_def
  proof (intro allI impI)
    fix p w r
    assume wf: "wf_json (JNumber n)" and w: "list_all isWhitespace w"
      and rem: "remaining p = w @ render (JNumber n) @ r" and ve: "value_end (JNumber n) r"
    obtain c cs where rv: "render (JNumber n) = c # cs" and c: "value_start c"
      using render_start[OF wf] by (cases "render (JNumber n)") auto
    have cd: "c = CHR ''-'' \<or> isDigit c"
    proof -
      obtain neg ip fr ex where n: "n = JNum neg ip fr ex" by (cases n) auto
      with wf have "ip \<noteq> []" "list_all isDigit ip" by auto
      then obtain d0 ip' where "ip = d0 # ip'" "isDigit d0" by (cases ip) auto
      with rv n show ?thesis by (cases neg) auto
    qed
    have rem': "remaining p = w @ c # (cs @ r)" using rem rv by simp
    let ?q = "p\<lparr>pos := pos p + length w\<rparr>"
    from skipWhitespace_to[OF w rem'] value_start_not[OF c]
    have q: "?q = skipWhitespace p" "pos ?q < length (data ?q)" "data ?q ! pos ?q = c"
      and rq: "remaining ?q = c # (cs @ r)" by auto
    have rq': "remaining ?q = render_number n @ r" using rq rv by simp
    obtain v where pn: "parseNumber ?q = (TokenNumber, v, ?q\<lparr>pos := pos ?q + length (render_number n)\<rparr>)"
      using parseNumber_remaining[OF _ rq', of ] wf ve by auto
    from skipsV_number[OF q(1,2) _ pn] cd q(3)
    show "skipsV p (p\<lparr>pos := pos p + length w + length (render (JNumber n))\<rparr>)"
      by (simp add: add.assoc)
  qed
next
  case (JString cs)
  show ?case unfolding skips_ok_def
  proof (intro allI impI)
    fix p w r
    assume wf: "wf_json (JString cs)" and w: "list_all isWhitespace w"
      and rem: "remaining p = w @ render (JString cs) @ r"
    have rem': "remaining p = w @ quote # (render_chars cs @ quote # r)" using rem by simp
    have nws: "\<not> isWhitespace quote" by (simp add: isWhitespace_def)
    let ?q = "p\<lparr>pos := pos p + length w\<rparr>"
    from skipWhitespace_to[OF w rem' nws]
    have q: "?q = skipWhitespace p" "pos ?q < length (data ?q)" "data ?q ! pos ?q = quote"
      and rq: "remaining ?q = quote # render_chars cs @ quote # r" by auto
    obtain v where ps: "parseString ?q = (TokenString, v, ?q\<lparr>pos := pos ?q + length (render_chars cs) + 2\<rparr>)"
      using parseString_remaining[OF _ rq] wf by auto
    from skipsV_string[OF q ps]
    show "skipsV p (p\<lparr>pos := pos p + length w + length (render (JString cs))\<rparr>)"
      by (simp add: add.assoc)
  qed
next
  case (JArray w0 es)
  show ?case unfolding skips_ok_def
  proof (intro allI impI)
    fix p w r
    assume wf: "wf_json (JArray w0 es)" and w: "list_all isWhitespace w"
      and rem: "remaining p = w @ render (JArray w0 es) @ r"
    define S where "S = sep_commas (map render_elem es)"
    have rem': "remaining p = w @ CHR ''['' # (w0 @ S @ CHR '']'' # r)"
      using rem by (simp add: S_def)
    have nws: "\<not> isWhitespace (CHR ''['')" by (simp add: isWhitespace_def)
    let ?q = "p\<lparr>pos := pos p + length w\<rparr>"
    from skipWhitespace_to[OF w rem' nws]
    have q: "?q = skipWhitespace p" "pos ?q < length (data ?q)" "data ?q ! pos ?q = CHR ''[''"
      and rq: "remaining ?q = CHR ''['' # (w0 @ S @ CHR '']'' # r)" by auto
    let ?q1 = "?q\<lparr>pos := pos ?q + 1\<rparr>"
    have rq1: "remaining ?q1 = w0 @ S @ CHR '']'' # r" by (rule remaining_advance1[OF rq])
    have w0: "list_all isWhitespace w0" and wfes: "list_all wf_elem es" using wf by auto
    have oks: "\<forall>x\<in>set es. skips_ok (elem_value x)" using JArray by blast
    have "skipsA ?q1 (?q1\<lparr>pos := pos ?q1 + length w0 + length S + 1\<rparr>)"
    proof (cases es)
      case Nil
      then have "remaining ?q1 = w0 @ render_tail (map render_elem []) @ CHR '']'' # r"
        using rq1 by (simp add: S_def render_tail_def)
      from array_tail[OF _ _ w0 this] Nil show ?thesis by (simp add: S_def render_tail_def)
    next
      case (Cons x es')
      obtain a v b where x: "x = JElem a v b" by (cases x) auto
      define T where "T = render_tail (map render_elem es') @ CHR '']'' # r"
      have Td: "delimiter T"
        by (cases es') (auto simp: T_def delimiter_def render_tail_def)
      have Seq: "S = a @ render v @ b @ render_tail (map render_elem es')"
        using Cons x by (simp add: S_def sep_commas_tail)
      have wfx: "wf_json v" "list_all isWhitespace a" "list_all isWhitespace b"
        and okv: "skips_ok v" and wfes': "list_all wf_elem es'"
        and oks': "\<forall>x\<in>set es'. skips_ok (elem_value x)"
        using wfes oks Cons x by auto
      have rq1': "remaining ?q1 = (w0 @ a) @ render v @ b @ T"
        using rq1 Seq by (simp add: T_def)
      let ?p3 = "?q1\<lparr>pos := pos ?q1 + length (w0 @ a) + length (render v)\<rparr>"
      have rp3: "remaining ?p3 = b @ render_tail (map render_elem es') @ CHR '']'' # r"
        using remaining_advance[of ?q1 "(w0 @ a) @ render v" "b @ T"] rq1'
        by (simp add: T_def add.assoc)
      have tl: "skipsA ?p3 (?p3\<lparr>pos := pos ?p3 + length b + length (render_tail (map render_elem es')) + 1\<rparr>)"
        by (rule array_tail[OF oks' wfes' wfx(3) rp3])
      have wa: "list_all isWhitespace (w0 @ a)" using w0 wfx(2) by simp
      from array_elem_step[OF okv wfx(1) wa wfx(3) rq1' Td tl]
      show ?thesis by (simp add: Seq add.assoc)
    qed
    from skipsV_array[OF q this]
    show "skipsV p (p\<lparr>pos := pos p + length w + length (render (JArray w0 es))\<rparr>)"
      by (simp add: S_def add.assoc)
  qed
next
  case (JObject w0 ms)
  show ?case unfolding skips_ok_def
  proof (intro allI impI)
    fix p w r
    assume wf: "wf_json (JObject w0 ms)" and w: "list_all isWhitespace w"
      and rem: "remaining p = w @ render (JObject w0 ms) @ r"
    define S where "S = sep_commas (map render_member ms)"
    have rem': "remaining p = w @ CHR ''{'' # (w0 @ S @ CHR ''}'' # r)"
      using rem by (simp add: S_def)
    have nws: "\<not> isWhitespace (CHR ''{'')" by (simp add: isWhitespace_def)
    let ?q = "p\<lparr>pos := pos p + length w\<rparr>"
    from skipWhitespace_to[OF w rem' nws]
    have q: "?q = skipWhitespace p" "pos ?q < length (data ?q)" "data ?q ! pos ?q = CHR ''{''"
      and rq: "remaining ?q = CHR ''{'' # (w0 @ S @ CHR ''}'' # r)" by auto
    let ?q1 = "?q\<lparr>pos := pos ?q + 1\<rparr>"
    have rq1: "remaining ?q1 = w0 @ S @ CHR ''}'' # r" by (rule remaining_advance1[OF rq])
    have w0: "list_all isWhitespace w0" and wfms: "list_all wf_member ms" using wf by auto
    have oks: "\<forall>x\<in>set ms. skips_ok (member_value x)" using JObject by blast
    have "skipsO ?q1 (?q1\<lparr>pos := pos ?q1 + length w0 + length S + 1\<rparr>)"
    proof (cases ms)
      case Nil
      then have "remaining ?q1 = w0 @ render_tail (map render_member []) @ CHR ''}'' # r"
        using rq1 by (simp add: S_def render_tail_def)
      from object_tail[OF _ _ w0 this] Nil show ?thesis by (simp add: S_def render_tail_def)
    next
      case (Cons x ms')
      obtain a k b c v d where x: "x = JMember a k b c v d" by (cases x) auto
      define T where "T = render_tail (map render_member ms') @ CHR ''}'' # r"
      have Td: "delimiter T"
        by (cases ms') (auto simp: T_def delimiter_def render_tail_def)
      have Seq: "S = render_member (JMember a k b c v d) @ render_tail (map render_member ms')"
        using Cons x by (simp add: S_def sep_commas_tail)
      have wfx: "wf_json v" "list_all isWhitespace a" "list_all wf_jchar k"
          "list_all isWhitespace b" "list_all isWhitespace c" "list_all isWhitespace d"
        and okv: "skips_ok v" and wfms': "list_all wf_member ms'"
        and oks': "\<forall>x\<in>set ms'. skips_ok (member_value x)"
        using wfms oks Cons x by auto
      have rq1': "remaining ?q1 = render_member (JMember (w0 @ a) k b c v d) @ T"
        using rq1 Seq by (simp add: T_def)
      let ?p3 = "?q1\<lparr>pos := pos ?q1 + length (w0 @ a) + (length (render_chars k) + 2) + length b + 1
          + length c + length (render v)\<rparr>"
      have rp3: "remaining ?p3 = d @ render_tail (map render_member ms') @ CHR ''}'' # r"
        using remaining_advance[of ?q1
            "(w0 @ a) @ quote # render_chars k @ quote # b @ CHR '':'' # c @ render v" "d @ T"] rq1'
        by (simp add: T_def add.assoc)
      have tl: "skipsO ?p3 (?p3\<lparr>pos := pos ?p3 + length d + length (render_tail (map render_member ms')) + 1\<rparr>)"
        by (rule object_tail[OF oks' wfms' wfx(6) rp3])
      have wa: "list_all isWhitespace (w0 @ a)" using w0 wfx(2) by simp
      from object_member_step[OF okv wfx(1) wa wfx(3-6) rq1' Td tl]
      show ?thesis by (simp add: Seq add.assoc)
    qed
    from skipsV_object[OF q this]
    show "skipsV p (p\<lparr>pos := pos p + length w + length (render (JObject w0 ms))\<rparr>)"
      by (simp add: S_def add.assoc)
  qed
next
  case (JElem a v b)
  then show ?case by simp
next
  case (JMember a k b c v d)
  then show ?case by simp
qed

text \<open>
  Claim C8. Let the unread input of a parser state be optional white space \<open>w\<close>, then
  the text of a well-formed JSON value \<open>j\<close> (of any shape and nesting depth), then any
  bytes \<open>r\<close>, where a number is not directly followed by a byte that would continue it.
  Then \<^verbatim>\<open>skipValue\<close> returns \<open>true\<close> and leaves the cursor on the first byte after the
  value. Strings may hold any escape, \<^verbatim>\<open>\"\<close> and \<^verbatim>\<open>\\\<close> included: an escaped quote does
  not end the string.
\<close>

theorem skipValue_wellformed:
  assumes "wf_json j" "list_all isWhitespace w" "remaining p = w @ render j @ r" "value_end j r"
  shows "skipValue p = Some (True, p\<lparr>pos := pos p + length w + length (render j)\<rparr>)"
  by (rule skipsV_skipValue[OF skips_okD[OF skips_ok_all assms]])

text \<open>
  The theorem at the text \<^verbatim>\<open>{"a\"b": [-1.5e+3, "\\\"" ,null]}\<close>, behind two spaces and in
  front of \<^verbatim>\<open>,1\<close>: an object holding an array, a key and a string with escaped quotes.
\<close>

definition sample_value :: json where
  "sample_value =
     JObject []
       [JMember [] [Plain (CHR ''a''), Esc quote, Plain (CHR ''b'')] [] '' ''
          (JArray []
             [JElem [] (JNumber (JNum True ''1'' (Some ''5'') (Some (CHR ''e'', ''+'', ''3'')))) [],
              JElem '' '' (JString [Esc backslash, Esc quote]) '' '',
              JElem [] JNull []])
          []]"

lemma sample_value_text:
  "render sample_value =
     ''{'' @ [quote] @ ''a'' @ [backslash, quote] @ ''b'' @ [quote] @ '': [-1.5e+3, '' @
     [quote, backslash, backslash, backslash, quote, quote] @ '' ,null]}''"
  by (simp add: sample_value_def render_chars_def render_frac_def render_exp_def)

theorem skipValue_wellformed_witness:
  "wf_json sample_value \<and>
   skipValue \<lparr>data = ''  '' @ render sample_value @ '',1'', pos = 0\<rparr> =
     Some (True, \<lparr>data = ''  '' @ render sample_value @ '',1'', pos = 35\<rparr>)"
proof -
  have wf: "wf_json sample_value"
    by (simp add: sample_value_def wf_frac_def wf_exp_def isDigit_def isWhitespace_def)
  have ws: "list_all isWhitespace ''  ''" by (simp add: isWhitespace_def)
  have rem: "remaining \<lparr>data = ''  '' @ render sample_value @ '',1'', pos = 0\<rparr>
      = ''  '' @ render sample_value @ '',1''" by (simp add: remaining_def)
  have ve: "value_end sample_value '',1''" by (simp add: sample_value_def)
  have len: "length (render sample_value) = 33" by (simp add: sample_value_text)
  from skipValue_wellformed[OF wf ws rem ve] wf len show ?thesis by simp
qed

unbundle bit_operations_syntax

section \<open>The pooled byte buffer (Buffer methods and pools)\<close>

text \<open>
  A Go slice is a window on a backing array: \<open>arr\<close> is the backing array from the
  slice's first element on (its length is the capacity of the slice) and \<open>len\<close> the
  length of the slice, so the slice holds \<open>take len arr\<close>. The language keeps
  \<open>len \<le> cap\<close>. A slice expression out of range panics; a panic is \<open>None\<close>.
\<close>

record Slice =
  arr :: string
  len :: nat

definition cap :: "Slice \<Rightarrow> nat" where
  "cap s = length (arr s)"

definition bytes :: "Slice \<Rightarrow> string" where
  "bytes s = take (len s) (arr s)"

text \<open>\<^verbatim>\<open>make([]byte, n, c)\<close>: a fresh zeroed array (\<open>n \<le> c\<close>, else Go panics).\<close>

definition makeSlice :: "nat \<Rightarrow> nat \<Rightarrow> Slice option" where
  "makeSlice n c = (if n \<le> c then Some \<lparr>arr = replicate c (CHR 0x00), len = n\<rparr> else None)"

text \<open>\<^verbatim>\<open>s[:n]\<close>: allowed up to the capacity.\<close>

definition reslice :: "Slice \<Rightarrow> nat \<Rightarrow> Slice option" where
  "reslice s n = (if n \<le> cap s then Some (s\<lparr>len := n\<rparr>) else None)"

text \<open>
  \<^verbatim>\<open>copy(s[at:], src)\<close>: the slice expression needs \<open>at \<le> len s\<close>; the copy writes
  \<open>min (len s - at) (length src)\<close> bytes at \<open>at\<close> and returns that number.
\<close>

definition copy_at :: "Slice \<Rightarrow> nat \<Rightarrow> string \<Rightarrow> (nat \<times> Slice) option" where
  "copy_at s at src =
     (if at \<le> len s then
        let n = min (len s - at) (length src)
        in Some (n, s\<lparr>arr := take at (arr s) @ take n src @ drop (at + n) (arr s)\<rparr>)
      else None)"

record Buffer =
  buf :: Slice
  off :: nat

text \<open>The loop \<^verbatim>\<open>for newCap < needed { newCap <<= 1 }\<close> (entered with \<open>newCap = 64\<close>).\<close>

function shl_until :: "nat \<Rightarrow> nat \<Rightarrow> nat" where
  "shl_until newCap needed =
     (if 0 < newCap \<and> newCap < needed then shl_until (push_bit 1 newCap) needed else newCap)"
  by pat_completeness auto
termination
  by (relation "measure (\<lambda>(newCap, needed). needed - newCap)") (auto simp: push_bit_eq_mult)

declare shl_until.simps [simp del]

text \<open>
  The new capacity \<^verbatim>\<open>grow\<close> picks when the buffer must be reallocated. Go's \<^verbatim>\<open>int\<close> is
  a natural number here: capacities are not negative and stay far below \<open>2^63\<close>.
\<close>

definition grow_newCap :: "nat \<Rightarrow> nat \<Rightarrow> nat" where
  "grow_newCap curCap needed =
     (let newCap =
        (if curCap = 0 then shl_until 64 needed
         else if curCap < 512 then
           (let n0 = max (curCap * 4) needed - 1;
                n1 = n0 OR drop_bit 1 n0;
                n2 = n1 OR drop_bit 2 n1;
                n3 = n2 OR drop_bit 4 n2;
                n4 = n3 OR drop_bit 8 n3
            in n4 + 1)
         else if curCap < 8192 then max (curCap * 2) needed
         else max (curCap + curCap div 2) needed);
          maxBufferSize = 32 * 1024 * 1024
      in if newCap > maxBufferSize \<and> needed \<le> maxBufferSize then maxBufferSize else newCap)"

definition grow :: "nat \<Rightarrow> Buffer \<Rightarrow> Buffer option" where
  "grow n b =
     (let needed = off b + n in
      if needed \<le> cap (buf b) then
        (case reslice (buf b) needed of None \<Rightarrow> None | Some s \<Rightarrow> Some (b\<lparr>buf := s\<rparr>))
      else
        (case makeSlice needed (grow_newCap (cap (buf b)) needed) of
           None \<Rightarrow> None
         | Some newBuf \<Rightarrow>
             (case reslice (buf b) (off b) of
                None \<Rightarrow> None
              | Some old \<Rightarrow>
                  (case copy_at newBuf 0 (bytes old) of
                     None \<Rightarrow> None
                   | Some (k, newBuf') \<Rightarrow> Some (b\<lparr>buf := newBuf'\<rparr>)))))"

text \<open>\<^verbatim>\<open>Write\<close> returns the number of bytes copied; the offset is not touched.\<close>

definition Write :: "string \<Rightarrow> Buffer \<Rightarrow> (nat \<times> Buffer) option" where
  "Write p b =
     (case grow (length p) b of
        None \<Rightarrow> None
      | Some b1 \<Rightarrow>
          (case copy_at (buf b1) (off b1) p of
             None \<Rightarrow> None
           | Some (n, s) \<Rightarrow> Some (n, b1\<lparr>buf := s\<rparr>)))"

definition WriteByte :: "char \<Rightarrow> Buffer \<Rightarrow> Buffer option" where
  "WriteByte c b =
     (case grow 1 b of
        None \<Rightarrow> None
      | Some b1 \<Rightarrow>
          if off b1 < len (buf b1)
          then Some (b1\<lparr>buf := (buf b1)\<lparr>arr := (arr (buf b1))[off b1 := c]\<rparr>, off := off b1 + 1\<rparr>)
          else None)"

definition WriteString :: "string \<Rightarrow> Buffer \<Rightarrow> (nat \<times> Buffer) option" where
  "WriteString s b =
     (case (if off b + length s > cap (buf b) then grow (length s) b else Some b) of
        None \<Rightarrow> None
      | Some b1 \<Rightarrow>
          (case copy_at (buf b1) (off b1) s of
             None \<Rightarrow> None
           | Some (n, sl) \<Rightarrow> Some (n, b1\<lparr>buf := sl, off := off b1 + n\<rparr>)))"

definition Reset :: "Buffer \<Rightarrow> Buffer" where
  "Reset b = b\<lparr>buf := (buf b)\<lparr>len := 0\<rparr>, off := 0\<rparr>"

text \<open>
  The data model of the buffer: the slice is a Go slice, and the offset is within it.
\<close>

definition valid :: "Buffer \<Rightarrow> bool" where
  "valid b = (len (buf b) \<le> cap (buf b) \<and> off b \<le> len (buf b))"

text \<open>What \<^verbatim>\<open>Marshal\<close> copies out: \<^verbatim>\<open>buf.buf[:buf.off]\<close>.\<close>

definition written :: "Buffer \<Rightarrow> string" where
  "written b = take (off b) (arr (buf b))"

subsection \<open>What grow and the write methods do\<close>

lemma shl_until_ge: "0 < c \<Longrightarrow> needed \<le> shl_until c needed"
proof (induction c needed rule: shl_until.induct)
  case (1 newCap needed)
  show ?case
  proof (cases "newCap < needed")
    case True
    with 1 show ?thesis by (subst shl_until.simps) (auto simp: push_bit_eq_mult)
  next
    case False
    then show ?thesis by (subst shl_until.simps) auto
  qed
qed

lemma nat_le_OR: "(a::nat) \<le> a OR b"
proof -
  have "int a \<le> int a OR int b" by (rule or_greater_eq) simp
  then have "int a \<le> int (a OR b)" by (simp add: of_nat_or_eq)
  then show ?thesis by simp
qed

lemma grow_newCap_ge: "needed \<le> grow_newCap curCap needed"
proof -
  define n0 where "n0 = max (curCap * 4) needed - 1"
  define n1 where "n1 = n0 OR drop_bit 1 n0"
  define n2 where "n2 = n1 OR drop_bit 2 n1"
  define n3 where "n3 = n2 OR drop_bit 4 n2"
  define n4 where "n4 = n3 OR drop_bit 8 n3"
  have "n0 \<le> n4"
    using nat_le_OR[of n0 "drop_bit 1 n0"] nat_le_OR[of n1 "drop_bit 2 n1"]
      nat_le_OR[of n2 "drop_bit 4 n2"] nat_le_OR[of n3 "drop_bit 8 n3"]
    unfolding n1_def[symmetric] n2_def[symmetric] n3_def[symmetric] n4_def[symmetric]
    by linarith
  then have r: "needed \<le> n4 + 1" unfolding n0_def by linarith
  have s: "needed \<le> shl_until 64 needed" by (rule shl_until_ge) simp
  show ?thesis
    unfolding grow_newCap_def Let_def n0_def[symmetric] n1_def[symmetric] n2_def[symmetric]
      n3_def[symmetric] n4_def[symmetric]
    using r s by auto
qed

lemma grow_effect:
  assumes "len (buf b) \<le> cap (buf b)" "off b \<le> cap (buf b)"
  shows "\<exists>b'. grow n b = Some b' \<and> off b' = off b \<and> len (buf b') = off b + n
      \<and> len (buf b') \<le> cap (buf b') \<and> written b' = written b"
proof (cases "off b + n \<le> cap (buf b)")
  case True
  then show ?thesis
    by (simp add: grow_def reslice_def cap_def written_def)
next
  case False
  define needed where "needed = off b + n"
  define c where "c = grow_newCap (cap (buf b)) needed"
  have nc: "needed \<le> c" unfolding c_def by (rule grow_newCap_ge)
  have oc: "off b \<le> c" using nc by (simp add: needed_def)
  have ol: "off b \<le> length (arr (buf b))" using assms(2) by (simp add: cap_def)
  have "grow n b = Some (b\<lparr>buf := \<lparr>arr = take (off b) (arr (buf b)) @ drop (off b) (replicate c (CHR 0x00)),
      len = needed\<rparr>\<rparr>)"
    using False nc assms(2) ol
    by (simp add: grow_def Let_def needed_def[symmetric] c_def[symmetric] makeSlice_def
        reslice_def copy_at_def bytes_def min_def)
  then show ?thesis using nc ol oc by (simp add: written_def cap_def needed_def)
qed

lemma copy_at_effect:
  assumes "at + length src \<le> len s" "len s \<le> cap s"
  shows "\<exists>s'. copy_at s at src = Some (length src, s') \<and> len s' = len s \<and> cap s' = cap s
     \<and> take at (arr s') = take at (arr s) \<and> slice (arr s') at (at + length src) = src"
proof -
  have a: "at \<le> len s" "at \<le> length (arr s)" "at + length src \<le> length (arr s)"
    using assms by (auto simp: cap_def)
  have m: "min (len s - at) (length src) = length src" using assms by auto
  let ?s' = "s\<lparr>arr := take at (arr s) @ src @ drop (at + length src) (arr s)\<rparr>"
  have "copy_at s at src = Some (length src, ?s')"
    using a(1) m by (simp add: copy_at_def Let_def)
  moreover have "cap ?s' = cap s" using a by (simp add: cap_def)
  moreover have "take at (arr ?s') = take at (arr s)" using a by simp
  moreover have "slice (arr ?s') at (at + length src) = src" using a by (simp add: slice_def)
  ultimately show ?thesis by simp
qed

lemma copy_at_general:
  assumes "at \<le> len s" "len s \<le> cap s"
  shows "\<exists>s'. copy_at s at src = Some (min (len s - at) (length src), s') \<and> len s' = len s
     \<and> cap s' = cap s
     \<and> take (at + min (len s - at) (length src)) (arr s') = take at (arr s) @ take (min (len s - at) (length src)) src"
proof -
  define n where "n = min (len s - at) (length src)"
  have a: "at \<le> length (arr s)" "at + n \<le> length (arr s)" "n \<le> length src"
    using assms by (auto simp: cap_def n_def)
  let ?s' = "s\<lparr>arr := take at (arr s) @ take n src @ drop (at + n) (arr s)\<rparr>"
  have "copy_at s at src = Some (n, ?s')"
    using assms(1) by (simp add: copy_at_def Let_def n_def)
  moreover have "cap ?s' = cap s" using a by (simp add: cap_def)
  moreover have "take (at + n) (arr ?s') = take at (arr s) @ take n src" using a by simp
  ultimately show ?thesis unfolding n_def[symmetric] by simp
qed

lemma Write_effect:
  assumes "len (buf b) \<le> cap (buf b)" "off b \<le> cap (buf b)"
  shows "\<exists>b'. Write p b = Some (length p, b') \<and> off b' = off b \<and> len (buf b') = off b + length p
      \<and> slice (arr (buf b')) (off b) (off b + length p) = p \<and> written b' = written b \<and> valid b'"
proof -
  obtain b1 where g: "grow (length p) b = Some b1" "off b1 = off b"
    "len (buf b1) = off b + length p" "len (buf b1) \<le> cap (buf b1)" "written b1 = written b"
    using grow_effect[OF assms, of "length p"] by blast
  obtain s' where c: "copy_at (buf b1) (off b1) p = Some (length p, s')" "len s' = len (buf b1)"
    "cap s' = cap (buf b1)" "take (off b1) (arr s') = take (off b1) (arr (buf b1))"
    "slice (arr s') (off b1) (off b1 + length p) = p"
    using copy_at_effect[of "off b1" p "buf b1"] g by auto
  have "Write p b = Some (length p, b1\<lparr>buf := s'\<rparr>)"
    using g(1) c(1) by (simp add: Write_def)
  then show ?thesis using g c by (simp add: written_def valid_def)
qed

lemma WriteByte_effect:
  assumes "len (buf b) \<le> cap (buf b)" "off b \<le> cap (buf b)"
  shows "\<exists>b'. WriteByte c b = Some b' \<and> off b' = off b + 1 \<and> len (buf b') = off b + 1
      \<and> written b' = written b @ [c] \<and> valid b'"
proof -
  obtain b1 where g: "grow 1 b = Some b1" "off b1 = off b"
    "len (buf b1) = off b + 1" "len (buf b1) \<le> cap (buf b1)" "written b1 = written b"
    using grow_effect[OF assms, of 1] by blast
  have lt: "off b < length (arr (buf b1))" using g by (simp add: cap_def)
  let ?b' = "b1\<lparr>buf := (buf b1)\<lparr>arr := (arr (buf b1))[off b1 := c]\<rparr>, off := off b1 + 1\<rparr>"
  have w: "WriteByte c b = Some ?b'" using g by (simp add: WriteByte_def)
  have "take (Suc (off b)) ((arr (buf b1))[off b := c]) = take (off b) (arr (buf b1)) @ [c]"
    using lt by (simp add: take_Suc_conv_app_nth)
  then have "written ?b' = written b @ [c]" using g by (simp add: written_def)
  with w g show ?thesis by (simp add: valid_def cap_def)
qed

lemma WriteString_exact:
  assumes "valid b"
  shows "\<exists>b'. WriteString s b
        = Some (if off b + length s > cap (buf b) then length s
                else min (len (buf b) - off b) (length s), b')
      \<and> off b' = off b + (if off b + length s > cap (buf b) then length s
                           else min (len (buf b) - off b) (length s))
      \<and> len (buf b') = (if off b + length s > cap (buf b) then off b + length s else len (buf b))
      \<and> written b' = written b @ take (if off b + length s > cap (buf b) then length s
                                        else min (len (buf b) - off b) (length s)) s
      \<and> valid b'"
proof -
  have v: "len (buf b) \<le> cap (buf b)" "off b \<le> len (buf b)" "off b \<le> cap (buf b)"
    using assms by (auto simp: valid_def)
  define n where "n = (if off b + length s > cap (buf b) then length s
                       else min (len (buf b) - off b) (length s))"
  obtain b1 where g: "(if off b + length s > cap (buf b) then grow (length s) b else Some b) = Some b1"
    "off b1 = off b" "off b1 \<le> len (buf b1)" "len (buf b1) \<le> cap (buf b1)" "written b1 = written b"
    "len (buf b1) = (if off b + length s > cap (buf b) then off b + length s else len (buf b))"
  proof (cases "off b + length s > cap (buf b)")
    case True
    then show ?thesis using grow_effect[OF v(1,3), of "length s"] that by auto
  next
    case False
    then show ?thesis using v that by auto
  qed
  have m: "min (len (buf b1) - off b1) (length s) = n"
    using g(2,6) by (simp add: n_def)
  obtain s' where c: "copy_at (buf b1) (off b1) s = Some (n, s')" "len s' = len (buf b1)"
    "cap s' = cap (buf b1)" "take (off b1 + n) (arr s') = take (off b1) (arr (buf b1)) @ take n s"
    using copy_at_general[OF g(3,4), of s] unfolding m by blast
  have w: "WriteString s b = Some (n, b1\<lparr>buf := s', off := off b1 + n\<rparr>)"
    using g(1) c(1) by (simp add: WriteString_def)
  have "off b1 + n \<le> len (buf b1)" using g(3) m by (auto simp: min_def split: if_splits)
  then have "valid (b1\<lparr>buf := s', off := off b1 + n\<rparr>)"
    using c g by (simp add: valid_def)
  moreover have "written (b1\<lparr>buf := s', off := off b1 + n\<rparr>) = written b @ take n s"
    using c g by (simp add: written_def)
  ultimately show ?thesis using w g c unfolding n_def[symmetric] by auto
qed

text \<open>
  Claim C2, as the code has it. On every buffer state of the data model (\<open>len \<le> cap\<close>,
  \<open>off \<le> len\<close>): \<^verbatim>\<open>Write(p)\<close> returns \<open>length p\<close>, sets the logical length to
  \<open>off + length p\<close>, stores \<open>p\<close> in the backing array at the offset, and leaves the offset
  as it was, so the prefix \<open>[0, off)\<close> that \<^verbatim>\<open>Marshal\<close> copies out (\<open>written\<close>) is unchanged
  and does not hold \<open>p\<close>. \<^verbatim>\<open>WriteByte\<close> stores its byte at the offset and advances the
  offset by one. \<^verbatim>\<open>WriteString\<close> advances the offset by the number of bytes it copied and
  extends the prefix by them: all of \<open>s\<close> when \<open>off + length s\<close> exceeds the capacity, and
  else the first \<open>len - off\<close> bytes of \<open>s\<close>, for it copies into the slice as it stands.
\<close>

theorem Buffer_writes:
  assumes "valid b"
  shows "(\<exists>b'. Write p b = Some (length p, b') \<and> off b' = off b
            \<and> len (buf b') = off b + length p
            \<and> slice (arr (buf b')) (off b) (off b + length p) = p
            \<and> written b' = written b)
       \<and> (\<exists>b'. WriteByte c b = Some b' \<and> off b' = off b + 1 \<and> len (buf b') = off b + 1
            \<and> written b' = written b @ [c])
       \<and> (\<exists>b'. WriteString s b
              = Some (if off b + length s > cap (buf b) then length s
                      else min (len (buf b) - off b) (length s), b')
            \<and> off b' = off b + (if off b + length s > cap (buf b) then length s
                                 else min (len (buf b) - off b) (length s))
            \<and> len (buf b') = (if off b + length s > cap (buf b) then off b + length s
                               else len (buf b))
            \<and> written b' = written b @ take (if off b + length s > cap (buf b) then length s
                                              else min (len (buf b) - off b) (length s)) s)"
proof -
  have v: "len (buf b) \<le> cap (buf b)" "off b \<le> cap (buf b)"
    using assms by (auto simp: valid_def)
  from Write_effect[OF v, of p] WriteByte_effect[OF v, of c] WriteString_exact[OF assms, of s]
  show ?thesis by blast
qed

text \<open>
  The theorem on a buffer of capacity 8 and length 4 that holds \<^verbatim>\<open>ab\<close>: \<^verbatim>\<open>Write\<close> of \<^verbatim>\<open>xyz\<close>
  leaves \<^verbatim>\<open>ab\<close> as the bytes \<^verbatim>\<open>Marshal\<close> would return, \<^verbatim>\<open>WriteByte\<close> adds its byte, and
  \<^verbatim>\<open>WriteString\<close> of \<^verbatim>\<open>xyz\<close> copies the two bytes that fit in the length.
\<close>

definition written_ab :: Buffer where
  "written_ab = \<lparr>buf = \<lparr>arr = ''ab'' @ replicate 6 (CHR 0x00), len = 4\<rparr>, off = 2\<rparr>"

theorem Buffer_writes_witness:
  "valid written_ab
   \<and> (\<exists>b'. Write ''xyz'' written_ab = Some (3, b') \<and> off b' = 2 \<and> len (buf b') = 5
        \<and> slice (arr (buf b')) 2 5 = ''xyz'' \<and> written b' = ''ab'')
   \<and> (\<exists>b'. WriteByte (CHR ''c'') written_ab = Some b' \<and> off b' = 3 \<and> len (buf b') = 3
        \<and> written b' = ''abc'')
   \<and> (\<exists>b'. WriteString ''xyz'' written_ab = Some (2, b') \<and> off b' = 4 \<and> len (buf b') = 4
        \<and> written b' = ''abxy'')"
proof -
  have v: "valid written_ab" by (simp add: valid_def written_ab_def cap_def)
  have o: "off written_ab = 2" "written written_ab = ''ab''" "len (buf written_ab) = 4"
    "cap (buf written_ab) = 8"
    by (simp_all add: written_ab_def written_def cap_def)
  from Buffer_writes[OF v, of "''xyz''" "CHR ''c''" "''xyz''"] v o show ?thesis
    by (simp add: eval_nat_numeral)
qed

text \<open>
  \<^verbatim>\<open>Write\<close> does not always grow the length: on a buffer of length 6 with the offset at 1,
  \<^verbatim>\<open>Write\<close> of two bytes leaves the length at 3.
\<close>

definition long_buffer :: Buffer where
  "long_buffer = \<lparr>buf = \<lparr>arr = replicate 8 (CHR 0x00), len = 6\<rparr>, off = 1\<rparr>"

theorem Write_shortens:
  "valid long_buffer \<and> len (buf long_buffer) = 6
   \<and> Write ''ab'' long_buffer
       = Some (2, \<lparr>buf = \<lparr>arr = CHR 0x00 # ''ab'' @ replicate 5 (CHR 0x00), len = 3\<rparr>, off = 1\<rparr>)"
  by (simp add: valid_def long_buffer_def cap_def Write_def grow_def reslice_def copy_at_def
      Let_def eval_nat_numeral)

text \<open>
  After \<^verbatim>\<open>Reset\<close> the length is 0: \<^verbatim>\<open>WriteString\<close> finds the capacity sufficient, copies into
  the empty slice and writes nothing.
\<close>

lemma WriteString_nothing:
  "WriteString ''ab'' (Reset long_buffer) = Some (0, Reset long_buffer)"
  by (simp add: long_buffer_def Reset_def cap_def WriteString_def copy_at_def Let_def)

subsection \<open>The buffer pools\<close>

text \<open>
  A \<^verbatim>\<open>sync.Pool\<close> is the list of the buffers put into it. \<^verbatim>\<open>Get\<close> may hand out any
  pooled buffer or call \<^verbatim>\<open>New\<close>; the model takes the buffer put last and calls \<^verbatim>\<open>New\<close>
  on an empty pool. \<open>newBuffer c\<close> is \<^verbatim>\<open>&Buffer{buf: make([]byte, 0, c)}\<close>.
\<close>

record Pools =
  tinyBuffers :: "Buffer list"
  smallBuffers :: "Buffer list"
  mediumBuffers :: "Buffer list"
  largeBuffers :: "Buffer list"

definition newBuffer :: "nat \<Rightarrow> Buffer" where
  "newBuffer c = \<lparr>buf = \<lparr>arr = replicate c (CHR 0x00), len = 0\<rparr>, off = 0\<rparr>"

definition pool_Get :: "Buffer \<Rightarrow> Buffer list \<Rightarrow> Buffer \<times> Buffer list" where
  "pool_Get new pool = (case pool of [] \<Rightarrow> (new, []) | b # bs \<Rightarrow> (b, bs))"

definition pool_Put :: "Buffer \<Rightarrow> Buffer list \<Rightarrow> Buffer list" where
  "pool_Put b pool = b # pool"

definition WarmupPools :: "Pools \<Rightarrow> Pools" where
  "WarmupPools ps =
     (let ps1 = ((\<lambda>q. q\<lparr>tinyBuffers := pool_Put (newBuffer 64) (tinyBuffers q),
                         smallBuffers := pool_Put (newBuffer 256) (smallBuffers q),
                         mediumBuffers := pool_Put (newBuffer 1024) (mediumBuffers q)\<rparr>) ^^ 32) ps
      in ((\<lambda>q. q\<lparr>largeBuffers := pool_Put (newBuffer 4096) (largeBuffers q)\<rparr>) ^^ 4) ps1)"

text \<open>The pools when the package has been initialised (\<^verbatim>\<open>init\<close> calls \<^verbatim>\<open>WarmupPools\<close>).\<close>

definition initial_pools :: Pools where
  "initial_pools =
     WarmupPools \<lparr>tinyBuffers = [], smallBuffers = [], mediumBuffers = [], largeBuffers = []\<rparr>"

text \<open>
  \<^verbatim>\<open>getBufferSize\<close>. The size hint is a Go \<^verbatim>\<open>int\<close>; \<^verbatim>\<open>&^\<close> is \<open>AND NOT\<close>.
\<close>

definition getBufferSize :: "int \<Rightarrow> Pools \<Rightarrow> Buffer \<times> Pools" where
  "getBufferSize sizeHint ps =
     (case
        (if sizeHint \<le> 64 then
           (case pool_Get (newBuffer 64) (tinyBuffers ps) of
              (b, rest) \<Rightarrow> (b, ps\<lparr>tinyBuffers := rest\<rparr>))
         else if sizeHint \<le> 256 then
           (case pool_Get (newBuffer 256) (smallBuffers ps) of
              (b, rest) \<Rightarrow> (b, ps\<lparr>smallBuffers := rest\<rparr>))
         else if sizeHint \<le> 4096 then
           (case pool_Get (newBuffer 1024) (mediumBuffers ps) of
              (b, rest) \<Rightarrow> (b, ps\<lparr>mediumBuffers := rest\<rparr>))
         else
           (let h0 = sizeHint - 1;
                h1 = h0 OR drop_bit 1 h0;
                h2 = h1 OR drop_bit 2 h1;
                h3 = h2 OR drop_bit 4 h2;
                h4 = h3 OR drop_bit 8 h3;
                h5 = h4 OR drop_bit 16 h4;
                h = h5 + 1
            in if h > 65536 then
                 (newBuffer (nat ((h + 4095) AND NOT 4095)), ps)
               else
                 (case pool_Get (newBuffer 4096) (largeBuffers ps) of
                    (b, rest) \<Rightarrow>
                      ((if int (cap (buf b)) < h then b\<lparr>buf := \<lparr>arr = replicate (nat h) (CHR 0x00), len = 0\<rparr>\<rparr>
                        else b),
                       ps\<lparr>largeBuffers := rest\<rparr>))))
      of (b, ps') \<Rightarrow> (b\<lparr>buf := (buf b)\<lparr>len := 0\<rparr>, off := 0\<rparr>, ps'))"

definition getBuffer :: "Pools \<Rightarrow> Buffer \<times> Pools" where
  "getBuffer ps = getBufferSize 256 ps"

text \<open>\<^verbatim>\<open>putBuffer\<close>; \<open>None\<close> is the nil pointer.\<close>

definition putBuffer :: "Buffer option \<Rightarrow> Pools \<Rightarrow> Pools" where
  "putBuffer bo ps =
     (case bo of
        None \<Rightarrow> ps
      | Some b0 \<Rightarrow>
          if cap (buf b0) > 65536 then ps
          else let b = Reset b0 in
            if cap (buf b) \<le> 64 then ps\<lparr>tinyBuffers := pool_Put b (tinyBuffers ps)\<rparr>
            else if cap (buf b) \<le> 256 then ps\<lparr>smallBuffers := pool_Put b (smallBuffers ps)\<rparr>
            else if cap (buf b) \<le> 4096 then ps\<lparr>mediumBuffers := pool_Put b (mediumBuffers ps)\<rparr>
            else ps\<lparr>largeBuffers := pool_Put b (largeBuffers ps)\<rparr>)"

lemma warm_small_loop:
  "mediumBuffers (((\<lambda>q. q\<lparr>tinyBuffers := pool_Put (newBuffer 64) (tinyBuffers q),
                         smallBuffers := pool_Put (newBuffer 256) (smallBuffers q),
                         mediumBuffers := pool_Put (newBuffer 1024) (mediumBuffers q)\<rparr>) ^^ k) ps)
     = replicate k (newBuffer 1024) @ mediumBuffers ps
   \<and> smallBuffers (((\<lambda>q. q\<lparr>tinyBuffers := pool_Put (newBuffer 64) (tinyBuffers q),
                         smallBuffers := pool_Put (newBuffer 256) (smallBuffers q),
                         mediumBuffers := pool_Put (newBuffer 1024) (mediumBuffers q)\<rparr>) ^^ k) ps)
     = replicate k (newBuffer 256) @ smallBuffers ps"
  by (induction k) (simp_all add: pool_Put_def)

lemma warm_large_loop:
  "mediumBuffers (((\<lambda>q. q\<lparr>largeBuffers := pool_Put (newBuffer 4096) (largeBuffers q)\<rparr>) ^^ k) ps)
     = mediumBuffers ps
   \<and> smallBuffers (((\<lambda>q. q\<lparr>largeBuffers := pool_Put (newBuffer 4096) (largeBuffers q)\<rparr>) ^^ k) ps)
     = smallBuffers ps"
  by (induction k) simp_all

lemma cap_newBuffer: "cap (buf (newBuffer c)) = c"
  by (simp add: newBuffer_def cap_def)

lemma cap_len_update: "cap (s\<lparr>len := n\<rparr>) = cap s"
  by (simp add: cap_def)

lemma warm_large_loop2:
  "largeBuffers (((\<lambda>q. q\<lparr>largeBuffers := pool_Put (newBuffer 4096) (largeBuffers q)\<rparr>) ^^ k) ps)
     = replicate k (newBuffer 4096) @ largeBuffers ps"
  by (induction k) (simp_all add: pool_Put_def)

lemma warm_small_loop2:
  "largeBuffers (((\<lambda>q. q\<lparr>tinyBuffers := pool_Put (newBuffer 64) (tinyBuffers q),
                         smallBuffers := pool_Put (newBuffer 256) (smallBuffers q),
                         mediumBuffers := pool_Put (newBuffer 1024) (mediumBuffers q)\<rparr>) ^^ k) ps)
     = largeBuffers ps"
  by (induction k) simp_all

lemma initial_large: "largeBuffers initial_pools = replicate 4 (newBuffer 4096)"
  by (simp add: initial_pools_def WarmupPools_def Let_def warm_small_loop2 warm_large_loop2)

lemma initial_medium: "mediumBuffers initial_pools = replicate 32 (newBuffer 1024)"
  by (simp add: initial_pools_def WarmupPools_def Let_def warm_small_loop warm_large_loop)

lemma initial_small: "smallBuffers initial_pools = replicate 32 (newBuffer 256)"
  by (simp add: initial_pools_def WarmupPools_def Let_def warm_small_loop warm_large_loop)

text \<open>
  Claim C6 (the code evaluated at the failing input). Size hints from 257 to 4096 are
  served from the medium pool, whose buffers are made with capacity 1024, and on this
  path the capacity is not compared with the hint (the path of the large pool does
  compare, and replaces a buffer that is too small). In the initialised package, and
  just as well with an empty pool, \<^verbatim>\<open>getBufferSize(2048)\<close> returns a buffer of capacity
  1024, although its comment says that it "returns a buffer with at least the
  specified capacity". \<^verbatim>\<open>NewEncoder\<close> makes exactly this call.
\<close>

theorem getBufferSize_medium_capacity:
  "cap (buf (fst (getBufferSize 2048 initial_pools))) = 1024 \<and>
   cap (buf (fst (getBufferSize 2048
      \<lparr>tinyBuffers = [], smallBuffers = [], mediumBuffers = [], largeBuffers = []\<rparr>))) = 1024 \<and>
   cap (buf (fst (getBufferSize 5000 initial_pools))) = 8192"
proof -
  have mb: "mediumBuffers initial_pools = newBuffer 1024 # replicate 31 (newBuffer 1024)"
    by (simp add: initial_medium numeral_eq_Suc)
  have lb: "largeBuffers initial_pools = newBuffer 4096 # replicate 3 (newBuffer 4096)"
    by (simp add: initial_large numeral_eq_Suc)
  have a: "cap (buf (fst (getBufferSize 2048 initial_pools))) = 1024"
    by (simp add: getBufferSize_def mb pool_Get_def cap_newBuffer cap_len_update)
  have b: "cap (buf (fst (getBufferSize 2048
      \<lparr>tinyBuffers = [], smallBuffers = [], mediumBuffers = [], largeBuffers = []\<rparr>))) = 1024"
    by (simp add: getBufferSize_def pool_Get_def cap_newBuffer cap_len_update)
  have h: "(let h0 = (5000::int) - 1;
                h1 = h0 OR drop_bit 1 h0;
                h2 = h1 OR drop_bit 2 h1;
                h3 = h2 OR drop_bit 4 h2;
                h4 = h3 OR drop_bit 8 h3;
                h5 = h4 OR drop_bit 16 h4
            in h5 + 1) = 8192"
    by code_simp
  have c: "cap (buf (fst (getBufferSize 5000 initial_pools))) = 8192"
    using h cap_newBuffer[of 4096]
    by (simp add: getBufferSize_def Let_def lb pool_Get_def cap_len_update cap_def)
  from a b c show ?thesis by simp
qed

section \<open>The marshaller (marshal_unmarshal.go, apexJSON.go)\<close>

subsection \<open>String escaping\<close>

text \<open>
  \<^verbatim>\<open>escapeMap\<close>: a table of 256 byte slices of which five are set; \<open>None\<close> is the nil
  slice of every other byte.
\<close>

definition escapeMap :: "char \<Rightarrow> string option" where
  "escapeMap c =
     (if c = quote then Some [backslash, quote]
      else if c = backslash then Some [backslash, backslash]
      else if c = newline then Some [backslash, CHR ''n'']
      else if c = creturn then Some [backslash, CHR ''r'']
      else if c = tab then Some [backslash, CHR ''t'']
      else None)"

text \<open>The statement \<^verbatim>\<open>buf.off += copy(buf.buf[buf.off:], src)\<close>.\<close>

definition copy_off :: "string \<Rightarrow> Buffer \<Rightarrow> Buffer option" where
  "copy_off src b =
     (case copy_at (buf b) (off b) src of
        None \<Rightarrow> None
      | Some (n, s) \<Rightarrow> Some (b\<lparr>buf := s, off := off b + n\<rparr>))"

text \<open>
  The loop of \<^verbatim>\<open>writeEscapedStringString\<close> on a Buffer (the only writer the marshaller
  passes), with its final copy of the unescaped tail.
\<close>

function writeEscaped_loop :: "string \<Rightarrow> nat \<Rightarrow> nat \<Rightarrow> Buffer \<Rightarrow> Buffer option" where
  "writeEscaped_loop s i start b =
     (if i < length s then
        (case escapeMap (s ! i) of
           None \<Rightarrow> writeEscaped_loop s (i + 1) start b
         | Some esc \<Rightarrow>
             (case (if start < i then copy_off (slice s start i) b else Some b) of
                None \<Rightarrow> None
              | Some b1 \<Rightarrow>
                  (case copy_off esc b1 of
                     None \<Rightarrow> None
                   | Some b2 \<Rightarrow> writeEscaped_loop s (i + 1) (i + 1) b2)))
      else if start < length s then copy_off (slice s start (length s)) b
      else Some b)"
  by pat_completeness auto
termination
  by (relation "measure (\<lambda>(s, i, start, b). length s - i)") auto

declare writeEscaped_loop.simps [simp del]

definition writeEscapedStringString :: "string \<Rightarrow> Buffer \<Rightarrow> Buffer option" where
  "writeEscapedStringString s b =
     (case grow (length s + 16) b of
        None \<Rightarrow> None
      | Some b1 \<Rightarrow> writeEscaped_loop s 0 0 b1)"

subsection \<open>Sequences of strings\<close>

text \<open>
  \<^verbatim>\<open>needsEscaping\<close> and \<^verbatim>\<open>countEscapeChars\<close> (parser.go): to them the bytes below 0x20, the
  quote and the backslash are the bytes to escape.
\<close>

fun needsEscaping :: "string \<Rightarrow> bool" where
  "needsEscaping [] = False"
| "needsEscaping (c # s) =
     (if of_char c < (0x20::nat) \<or> c = quote \<or> c = backslash then True else needsEscaping s)"

fun countEscapeChars :: "string \<Rightarrow> nat" where
  "countEscapeChars [] = 0"
| "countEscapeChars (c # s) =
     (if of_char c < (0x20::nat) \<or> c = quote \<or> c = backslash then countEscapeChars s + 1
      else countEscapeChars s)"

text \<open>
  \<^verbatim>\<open>marshalArray\<close> on a slice or array whose elements are of kind String: the estimate of
  the size from the first three elements, the growth of the buffer when the estimate
  exceeds the capacity, and the loop of the case \<^verbatim>\<open>reflect.String\<close>, which hands an element
  to \<^verbatim>\<open>WriteString\<close> when \<^verbatim>\<open>needsEscaping\<close> finds nothing in it and to the escaper otherwise.
  The sizes are Go \<^verbatim>\<open>int\<close>s, taken here without their bound.
\<close>

fun marshalArray_loop :: "string list \<Rightarrow> nat \<Rightarrow> Buffer \<Rightarrow> Buffer option" where
  "marshalArray_loop [] i b = Some b"
| "marshalArray_loop (str # rest) i b =
     (case (if i > 0 then WriteByte (CHR '','') b else Some b) of
        None \<Rightarrow> None
      | Some b1 \<Rightarrow>
          (case WriteByte quote b1 of
             None \<Rightarrow> None
           | Some b2 \<Rightarrow>
               (case (if \<not> needsEscaping str
                      then (case WriteString str b2 of None \<Rightarrow> None | Some (n, b3) \<Rightarrow> Some b3)
                      else writeEscapedStringString str b2) of
                  None \<Rightarrow> None
                | Some b3 \<Rightarrow>
                    (case WriteByte quote b3 of
                       None \<Rightarrow> None
                     | Some b4 \<Rightarrow> marshalArray_loop rest (i + 1) b4))))"

definition marshalArray :: "string list \<Rightarrow> Buffer \<Rightarrow> Buffer option" where
  "marshalArray xs b =
     (if length xs = 0 then
        (case WriteByte (CHR ''['') b of None \<Rightarrow> None | Some b1 \<Rightarrow> WriteByte (CHR '']'') b1)
      else
        let sampleSize = min (length xs) 3;
            totalLen = sum_list (map (\<lambda>s. length s + 2 + countEscapeChars s * 5) (take sampleSize xs));
            avg = totalLen div sampleSize;
            estimatedSize = 2 + (length xs - 1) + avg * length xs
        in
        (case (if off b + estimatedSize > cap (buf b) then grow estimatedSize b else Some b) of
           None \<Rightarrow> None
         | Some b1 \<Rightarrow>
             (case WriteByte (CHR ''['') b1 of
                None \<Rightarrow> None
              | Some b2 \<Rightarrow>
                  (case marshalArray_loop xs 0 b2 of
                     None \<Rightarrow> None
                   | Some b3 \<Rightarrow> WriteByte (CHR '']'') b3))))"

subsection \<open>Values\<close>

text \<open>
  The values of the model: the invalid value (\<^verbatim>\<open>Marshal(nil)\<close>), pointers (nil or not),
  strings, booleans, signed integers, structs, slices and arrays of strings, and values
  of a kind the marshaller rejects (channels, functions, complex numbers), which carry
  the name of their type. A struct is the list of its fields in declaration order, each
  with the descriptor \<^verbatim>\<open>computeStructFields\<close> caches for it; all its fields are exported and
  encoded. Floats, unsigned integers, timestamps, byte slices, custom marshallers,
  interfaces, the other sequences and maps are outside the model.
\<close>

record Field =
  nameBytes :: string
  nameWithQuotesBytes :: string
  omitEmpty :: bool
  stringOpt :: bool

datatype gvalue =
    VInvalid
  | VPtr "gvalue option"
  | VString string
  | VBool bool
  | VInt int
  | VStruct "(Field \<times> gvalue) list"
  | VStrings "string list"
  | VUnsupported string

datatype merror = UnsupportedType string

text \<open>\<^verbatim>\<open>isEmptyValue\<close> on these kinds.\<close>

fun isEmptyValue :: "gvalue \<Rightarrow> bool" where
  "isEmptyValue (VString s) = (length s = 0)"
| "isEmptyValue (VBool b) = (\<not> b)"
| "isEmptyValue (VInt i) = (i = 0)"
| "isEmptyValue (VPtr p) = (p = None)"
| "isEmptyValue (VStruct fs) = list_all (\<lambda>(f, v). isEmptyValue v) fs"
| "isEmptyValue (VStrings xs) = (length xs = 0)"
| "isEmptyValue VInvalid = False"
| "isEmptyValue (VUnsupported t) = False"

text \<open>The kinds that the \<^verbatim>\<open>string\<close> tag option wraps in quotes.\<close>

fun numeric_or_bool :: "gvalue \<Rightarrow> bool" where
  "numeric_or_bool (VInt i) = True"
| "numeric_or_bool (VBool b) = True"
| "numeric_or_bool v = False"

text \<open>
  \<^verbatim>\<open>marshalValue\<close> and the field loop of \<^verbatim>\<open>marshalStruct\<close>. The result is \<open>None\<close> on a
  panic, and else the error returned (\<open>None\<close> for nil) with the buffer. \<open>AppendInt\<close>
  stands for \<^verbatim>\<open>strconv.AppendInt(_, _, 10)\<close>.
\<close>

fun marshalValue :: "(int \<Rightarrow> string) \<Rightarrow> gvalue \<Rightarrow> Buffer \<Rightarrow> (merror option \<times> Buffer) option"
  and marshalFields :: "(int \<Rightarrow> string) \<Rightarrow> (Field \<times> gvalue) list \<Rightarrow> nat \<Rightarrow> Buffer
      \<Rightarrow> (merror option \<times> Buffer) option" where
  "marshalValue AppendInt VInvalid b =
     (case Write ''null'' b of None \<Rightarrow> None | Some (n, b1) \<Rightarrow> Some (None, b1))"
| "marshalValue AppendInt (VPtr None) b =
     (case Write ''null'' b of None \<Rightarrow> None | Some (n, b1) \<Rightarrow> Some (None, b1))"
| "marshalValue AppendInt (VPtr (Some v)) b = marshalValue AppendInt v b"
| "marshalValue AppendInt (VString s) b =
     (case WriteByte quote b of
        None \<Rightarrow> None
      | Some b1 \<Rightarrow>
          (case writeEscapedStringString s b1 of
             None \<Rightarrow> None
           | Some b2 \<Rightarrow>
               (case WriteByte quote b2 of None \<Rightarrow> None | Some b3 \<Rightarrow> Some (None, b3))))"
| "marshalValue AppendInt (VBool v) b =
     (case Write (if v then ''true'' else ''false'') b of
        None \<Rightarrow> None
      | Some (n, b1) \<Rightarrow> Some (None, b1))"
| "marshalValue AppendInt (VInt i) b =
     (case Write (AppendInt i) b of None \<Rightarrow> None | Some (n, b1) \<Rightarrow> Some (None, b1))"
| "marshalValue AppendInt (VStruct fs) b =
     (case WriteByte (CHR ''{'') b of
        None \<Rightarrow> None
      | Some b1 \<Rightarrow>
          (case marshalFields AppendInt fs 0 b1 of
             None \<Rightarrow> None
           | Some (Some err, b2) \<Rightarrow> Some (Some err, b2)
           | Some (None, b2) \<Rightarrow>
               (case WriteByte (CHR ''}'') b2 of None \<Rightarrow> None | Some b3 \<Rightarrow> Some (None, b3))))"
| "marshalValue AppendInt (VUnsupported t) b = Some (Some (UnsupportedType t), b)"
| "marshalValue AppendInt (VStrings xs) b =
     (if length xs = 0 then
        (case WriteByte (CHR ''['') b of
           None \<Rightarrow> None
         | Some b1 \<Rightarrow>
             (case WriteByte (CHR '']'') b1 of None \<Rightarrow> None | Some b2 \<Rightarrow> Some (None, b2)))
      else (case marshalArray xs b of None \<Rightarrow> None | Some b1 \<Rightarrow> Some (None, b1)))"
| "marshalFields AppendInt [] fieldCount b = Some (None, b)"
| "marshalFields AppendInt ((f, fv) # rest) fieldCount b =
     (if omitEmpty f \<and> isEmptyValue fv then marshalFields AppendInt rest fieldCount b
      else
        (case (if fieldCount > 0 then WriteByte (CHR '','') b else Some b) of
           None \<Rightarrow> None
         | Some b1 \<Rightarrow>
             (case Write (nameWithQuotesBytes f) b1 of
                None \<Rightarrow> None
              | Some (n, b2) \<Rightarrow>
                  if stringOpt f \<and> numeric_or_bool fv then
                    (case WriteByte quote b2 of
                       None \<Rightarrow> None
                     | Some b3 \<Rightarrow>
                         (case marshalValue AppendInt fv b3 of
                            None \<Rightarrow> None
                          | Some (Some err, b4) \<Rightarrow> Some (Some err, b4)
                          | Some (None, b4) \<Rightarrow>
                              (case WriteByte quote b4 of
                                 None \<Rightarrow> None
                               | Some b5 \<Rightarrow> marshalFields AppendInt rest (fieldCount + 1) b5)))
                  else
                    (case marshalValue AppendInt fv b2 of
                       None \<Rightarrow> None
                     | Some (Some err, b3) \<Rightarrow> Some (Some err, b3)
                     | Some (None, b3) \<Rightarrow> marshalFields AppendInt rest (fieldCount + 1) b3))))"

text \<open>
  \<^verbatim>\<open>Marshal\<close>: a buffer from the pool, \<^verbatim>\<open>marshalValue\<close>, the copy of \<^verbatim>\<open>buf.buf[:buf.off]\<close>
  as the result, and the deferred \<^verbatim>\<open>putBuffer\<close>.
\<close>

definition Marshal :: "(int \<Rightarrow> string) \<Rightarrow> Pools \<Rightarrow> gvalue \<Rightarrow> (merror + string) option \<times> Pools" where
  "Marshal AppendInt ps v =
     (case getBuffer ps of
        (b, ps1) \<Rightarrow>
          (case marshalValue AppendInt v b of
             None \<Rightarrow> (None, ps1)
           | Some (Some err, b1) \<Rightarrow> (Some (Inl err), putBuffer (Some b1) ps1)
           | Some (None, b1) \<Rightarrow>
               (case reslice (buf b1) (off b1) of
                  None \<Rightarrow> (None, putBuffer (Some b1) ps1)
                | Some r \<Rightarrow> (Some (Inr (bytes r)), putBuffer (Some b1) ps1))))"

subsection \<open>What the escaper emits\<close>

text \<open>
  The text the escape table describes: each byte with an entry is replaced by the
  entry, every other byte stands for itself.
\<close>

definition escape_byte :: "char \<Rightarrow> string" where
  "escape_byte c = (case escapeMap c of None \<Rightarrow> [c] | Some esc \<Rightarrow> esc)"

definition escape :: "string \<Rightarrow> string" where
  "escape s = concat (map escape_byte s)"

lemma escape_Nil: "escape [] = []"
  by (simp add: escape_def)

lemma escape_append: "escape (xs @ ys) = escape xs @ escape ys"
  by (simp add: escape_def)

lemma escape_Cons: "escape (c # xs) = escape_byte c @ escape xs"
  by (simp add: escape_def)

lemma escape_plain: "(\<And>c. c \<in> set xs \<Longrightarrow> escapeMap c = None) \<Longrightarrow> escape xs = xs"
  by (induction xs) (simp_all add: escape_def escape_byte_def)

lemma copy_off_effect:
  assumes "valid b"
  shows "\<exists>b'. copy_off src b = Some b' \<and> valid b' \<and> len (buf b') = len (buf b)
      \<and> off b' = off b + min (len (buf b) - off b) (length src)
      \<and> written b' = written b @ take (len (buf b) - off b) src"
proof -
  have v: "off b \<le> len (buf b)" "len (buf b) \<le> cap (buf b)"
    using assms by (auto simp: valid_def)
  define n where "n = min (len (buf b) - off b) (length src)"
  obtain s' where c: "copy_at (buf b) (off b) src = Some (n, s')" "len s' = len (buf b)"
    "cap s' = cap (buf b)" "take (off b + n) (arr s') = take (off b) (arr (buf b)) @ take n src"
    using copy_at_general[OF v, of src] unfolding n_def by blast
  have t: "take n src = take (len (buf b) - off b) src"
    by (simp add: n_def min_def)
  have "copy_off src b = Some (b\<lparr>buf := s', off := off b + n\<rparr>)"
    using c(1) by (simp add: copy_off_def)
  moreover have "valid (b\<lparr>buf := s', off := off b + n\<rparr>)"
    using c v by (simp add: valid_def n_def)
  ultimately show ?thesis using c t by (simp add: written_def n_def)
qed

lemma segment_split:
  assumes "start \<le> i" "i < length s"
  shows "drop start s = slice s start i @ s ! i # drop (i + 1) s"
proof -
  have a: "drop start s = take (i - start) (drop start s) @ drop (i - start) (drop start s)"
    by (rule append_take_drop_id[symmetric])
  have b: "drop (i - start) (drop start s) = drop i s" using assms by simp
  have c: "drop i s = s ! i # drop (i + 1) s" using assms by (simp add: Cons_nth_drop_Suc)
  have "drop start s = take (i - start) (drop start s) @ s ! i # drop (i + 1) s"
    using a unfolding b c .
  then show ?thesis by (simp only: slice_def)
qed

lemma segment_plain:
  assumes "\<forall>k. start \<le> k \<and> k < i \<longrightarrow> escapeMap (s ! k) = None" "i \<le> length s"
  shows "escape (slice s start i) = slice s start i"
proof (rule escape_plain)
  fix c assume "c \<in> set (slice s start i)"
  then obtain k where k: "k < length (slice s start i)" "slice s start i ! k = c"
    by (auto simp: in_set_conv_nth)
  have "k < i - start" using k(1) by (simp add: slice_def)
  then have "slice s start i ! k = s ! (start + k)" "start + k < i"
    using assms(2) by (auto simp: slice_def)
  then show "escapeMap c = None" using assms(1) k(2) by auto
qed

lemma writeEscaped_loop_effect:
  "valid b \<Longrightarrow> start \<le> i \<Longrightarrow> i \<le> length s
   \<Longrightarrow> \<forall>k. start \<le> k \<and> k < i \<longrightarrow> escapeMap (s ! k) = None
   \<Longrightarrow> \<exists>b'. writeEscaped_loop s i start b = Some b' \<and> valid b' \<and> len (buf b') = len (buf b)
         \<and> written b' = written b @ take (len (buf b) - off b) (escape (drop start s))"
proof (induction s i start b rule: writeEscaped_loop.induct)
  case (1 s i start b)
  note v = \<open>valid b\<close>
  show ?case
  proof (cases "i < length s")
    case False
    then have il: "i = length s" using "1.prems" by simp
    have pl: "escape (slice s start i) = slice s start i"
      using segment_plain[OF "1.prems"(4) "1.prems"(3)] .
    have sl: "slice s start i = drop start s" by (simp add: slice_def il)
    show ?thesis
    proof (cases "start < length s")
      case True
      have w: "writeEscaped_loop s i start b = copy_off (slice s start (length s)) b"
        using il True by (subst writeEscaped_loop.simps) simp
      show ?thesis using copy_off_effect[OF v, of "slice s start (length s)"] pl sl w il
        by auto
    next
      case False
      have w: "writeEscaped_loop s i start b = Some b"
        using il False by (subst writeEscaped_loop.simps) simp
      show ?thesis using w False v by (simp add: escape_Nil)
    qed
  next
    case True
    show ?thesis
    proof (cases "escapeMap (s ! i)")
      case None
      have w: "writeEscaped_loop s i start b = writeEscaped_loop s (i + 1) start b"
        using True None by (subst writeEscaped_loop.simps) simp
      have "\<forall>k. start \<le> k \<and> k < i + 1 \<longrightarrow> escapeMap (s ! k) = None"
        using "1.prems"(4) None by (auto simp: less_Suc_eq)
      then show ?thesis
        using "1.IH"(1)[OF True None v] "1.prems" True w by simp
    next
      case (Some esc)
      define seg where "seg = slice s start i"
      define room where "room = len (buf b) - off b"
      have sp: "escape (drop start s) = seg @ esc @ escape (drop (i + 1) s)"
        using segment_split[OF "1.prems"(2) True] segment_plain[OF "1.prems"(4) "1.prems"(3)] Some
        by (simp add: escape_append escape_Cons escape_byte_def seg_def)
      have ls: "length seg = i - start" using True by (simp add: seg_def slice_def)
      obtain b1 where b1: "(if start < i then copy_off seg b else Some b) = Some b1" "valid b1"
        "len (buf b1) = len (buf b)" "off b1 = off b + min room (length seg)"
        "written b1 = written b @ take room seg"
      proof (cases "start < i")
        case True
        then show ?thesis using copy_off_effect[OF v, of seg] that by (auto simp: room_def)
      next
        case False
        then have "seg = []" using ls by simp
        then show ?thesis using False v that[of b] by simp
      qed
      obtain b2 where b2: "copy_off esc b1 = Some b2" "valid b2" "len (buf b2) = len (buf b1)"
        "off b2 = off b1 + min (len (buf b1) - off b1) (length esc)"
        "written b2 = written b1 @ take (len (buf b1) - off b1) esc"
        using copy_off_effect[OF b1(2), of esc] by blast
      have w: "writeEscaped_loop s i start b = writeEscaped_loop s (i + 1) (i + 1) b2"
      proof (cases "start < i")
        case True
        then have "copy_off (slice s start i) b = Some b1" using b1(1) by (simp add: seg_def)
        then show ?thesis
          using \<open>i < length s\<close> Some True b2(1) by (subst writeEscaped_loop.simps) simp
      next
        case False
        then have "b1 = b" using b1(1) by simp
        then show ?thesis
          using \<open>i < length s\<close> Some False b2(1) by (subst writeEscaped_loop.simps) simp
      qed
      have ih: "\<exists>b'. writeEscaped_loop s (i + 1) (i + 1) b2 = Some b' \<and> valid b'
          \<and> len (buf b') = len (buf b2)
          \<and> written b' = written b2 @ take (len (buf b2) - off b2) (escape (drop (i + 1) s))"
      proof -
        have e: "\<forall>k. i + 1 \<le> k \<and> k < i + 1 \<longrightarrow> escapeMap (s ! k) = None" by auto
        have l: "i + 1 \<le> length s" using True by simp
        show ?thesis
          by (rule "1.IH"(2)[OF True Some b1(1)[unfolded seg_def] b2(1) b2(2) _ l e]) simp
      qed
      have r1: "len (buf b1) - off b1 = room - length seg"
        using b1 by (simp add: room_def)
      have r2: "len (buf b2) - off b2 = room - length seg - length esc"
        using b2 r1 by simp
      have "take room (seg @ esc @ escape (drop (i + 1) s))
          = take room seg @ take (room - length seg) esc
            @ take (room - length seg - length esc) (escape (drop (i + 1) s))"
        by simp
      then show ?thesis
        using ih w b1 b2 r1 r2 sp by (auto simp: room_def)
    qed
  qed
qed

lemma writeEscapedStringString_effect:
  assumes "valid b"
  shows "\<exists>b'. writeEscapedStringString s b = Some b' \<and> valid b'
      \<and> written b' = written b @ take (length s + 16) (escape s)"
proof -
  have v: "len (buf b) \<le> cap (buf b)" "off b \<le> cap (buf b)"
    using assms by (auto simp: valid_def)
  obtain b1 where g: "grow (length s + 16) b = Some b1" "off b1 = off b"
    "len (buf b1) = off b + (length s + 16)" "len (buf b1) \<le> cap (buf b1)"
    "written b1 = written b"
    using grow_effect[OF v, of "length s + 16"] by blast
  have v1: "valid b1" using g by (simp add: valid_def)
  have "\<exists>b'. writeEscaped_loop s 0 0 b1 = Some b' \<and> valid b' \<and> len (buf b') = len (buf b1)
      \<and> written b' = written b1 @ take (len (buf b1) - off b1) (escape (drop 0 s))"
    by (rule writeEscaped_loop_effect[OF v1]) simp_all
  then show ?thesis using g by (auto simp: writeEscapedStringString_def)
qed

lemma getBufferSize_fresh:
  "getBufferSize h ps = (b, ps') \<Longrightarrow> valid b \<and> off b = 0"
  by (auto simp: getBufferSize_def valid_def Let_def split: prod.splits if_splits)

lemma marshal_string:
  assumes "valid b"
  shows "\<exists>b'. marshalValue AppendInt (VString s) b = Some (None, b') \<and> valid b'
      \<and> written b' = written b @ quote # take (length s + 16) (escape s) @ [quote]"
proof -
  have v: "len (buf b) \<le> cap (buf b)" "off b \<le> cap (buf b)"
    using assms by (auto simp: valid_def)
  obtain b1 where b1: "WriteByte quote b = Some b1" "written b1 = written b @ [quote]" "valid b1"
    using WriteByte_effect[OF v, of quote] by blast
  obtain b2 where b2: "writeEscapedStringString s b1 = Some b2" "valid b2"
    "written b2 = written b1 @ take (length s + 16) (escape s)"
    using writeEscapedStringString_effect[OF b1(3), of s] by blast
  have v2: "len (buf b2) \<le> cap (buf b2)" "off b2 \<le> cap (buf b2)"
    using b2(2) by (auto simp: valid_def)
  obtain b3 where b3: "WriteByte quote b2 = Some b3" "written b3 = written b2 @ [quote]" "valid b3"
    using WriteByte_effect[OF v2, of quote] by blast
  show ?thesis using b1 b2 b3 by simp
qed

lemma Marshal_string:
  "fst (Marshal AppendInt ps (VString s))
     = Some (Inr (quote # take (length s + 16) (escape s) @ [quote]))"
proof -
  obtain b ps1 where g: "getBuffer ps = (b, ps1)" by (cases "getBuffer ps")
  have f: "valid b" "off b = 0"
    using getBufferSize_fresh[OF g[unfolded getBuffer_def]] by auto
  obtain b' where m: "marshalValue AppendInt (VString s) b = Some (None, b')" "valid b'"
    "written b' = written b @ quote # take (length s + 16) (escape s) @ [quote]"
    using marshal_string[OF f(1), of AppendInt s] by blast
  have w: "written b = []" using f(2) by (simp add: written_def)
  have oc: "off b' \<le> cap (buf b')" using m(2) by (simp add: valid_def)
  have "bytes (buf b'\<lparr>len := off b'\<rparr>) = written b'" by (simp add: bytes_def written_def)
  then show ?thesis using g m w oc by (simp add: Marshal_def reslice_def)
qed

text \<open>\<^verbatim>\<open>strconv.AppendInt(dst[:0], i, 10)\<close>, for the examples.\<close>

function decimal_digits :: "nat \<Rightarrow> string" where
  "decimal_digits n =
     (if n < 10 then [char_of (48 + n)]
      else decimal_digits (n div 10) @ [char_of (48 + n mod 10)])"
  by pat_completeness auto
termination
  by (relation "measure id") auto

definition AppendInt_decimal :: "int \<Rightarrow> string" where
  "AppendInt_decimal i =
     (if i < 0 then CHR ''-'' # decimal_digits (nat (- i)) else decimal_digits (nat i))"

lemma AppendInt_decimal_examples:
  "AppendInt_decimal 28 = ''28'' \<and> AppendInt_decimal (- 105) = ''-105'' \<and> AppendInt_decimal 0 = ''0''"
  by code_simp

lemma escape_byte_table:
  "escape_byte c =
     (if c = quote then [backslash, quote]
      else if c = backslash then [backslash, backslash]
      else if c = newline then [backslash, CHR ''n'']
      else if c = creturn then [backslash, CHR ''r'']
      else if c = tab then [backslash, CHR ''t'']
      else [c])"
  by (simp add: escape_byte_def escapeMap_def)

lemma escape_length:
  "length (escape s) = length s + length (filter (\<lambda>c. escapeMap c \<noteq> None) s)"
  by (induction s) (auto simp: escape_Nil escape_Cons escape_byte_def escapeMap_def)

text \<open>
  A string value that reaches the String case of \<^verbatim>\<open>marshalValue\<close> is emitted between two
  quotes with quote, backslash, newline, carriage return and tab as their two-character
  escapes and every other byte as it is; the escaped text is cut at \<open>length s + 16\<close>
  bytes, and is complete when the string holds at most 16 of the five bytes.
\<close>

lemma Marshal_string_escapes:
  "fst (Marshal AppendInt ps (VString s))
     = Some (Inr (quote # take (length s + 16) (escape s) @ [quote]))
   \<and> (length (filter (\<lambda>c. escapeMap c \<noteq> None) s) \<le> 16
        \<longrightarrow> fst (Marshal AppendInt ps (VString s)) = Some (Inr (quote # escape s @ [quote])))"
  using Marshal_string[of AppendInt ps s] escape_length[of s] by simp

definition sample_string :: string where
  "sample_string = [CHR ''a'', quote, backslash, newline, creturn, tab, CHR ''/'', CHR 0x1F]"

lemma Marshal_string_example:
  "fst (Marshal AppendInt_decimal initial_pools (VString sample_string))
     = Some (Inr ([quote, CHR ''a'', backslash, quote, backslash, backslash, backslash, CHR ''n'',
          backslash, CHR ''r'', backslash, CHR ''t'', CHR ''/'', CHR 0x1F, quote]))"
  using Marshal_string[of AppendInt_decimal initial_pools sample_string]
  by (simp add: sample_string_def escape_def escape_byte_def escapeMap_def)

lemma WriteByte_within:
  assumes "off b + 1 \<le> cap (buf b)" "WriteByte c b = Some b'"
  shows "cap (buf b') = cap (buf b)"
  using assms
  by (auto simp: WriteByte_def grow_def reslice_def cap_def Let_def split: if_splits)

lemma getBufferSize_len:
  "getBufferSize h ps = (b, ps') \<Longrightarrow> len (buf b) = 0"
  by (auto simp: getBufferSize_def Let_def split: prod.splits if_splits)

lemma needsEscaping_plain:
  "\<not> needsEscaping s \<Longrightarrow> countEscapeChars s = 0"
  by (induction s) (auto split: if_splits)

text \<open>
  A sequence of one string in which \<^verbatim>\<open>needsEscaping\<close> finds nothing: the estimate makes
  the capacity sufficient for the string, so \<^verbatim>\<open>WriteString\<close> does not grow the buffer
  and copies into a slice that ends at the offset. The string is lost.
\<close>

lemma marshalArray_single:
  assumes v: "valid b" and l: "len (buf b) = off b" and p: "\<not> needsEscaping s"
  shows "\<exists>b'. marshalArray [s] b = Some b' \<and> valid b'
      \<and> written b' = written b @ [CHR ''['', quote, quote, CHR '']'']"
proof -
  have v0: "len (buf b) \<le> cap (buf b)" "off b \<le> cap (buf b)"
    using v by (auto simp: valid_def)
  define e where "e = length s + 4"
  obtain bA where bA: "(if off b + e > cap (buf b) then grow e b else Some b) = Some bA"
    "off bA = off b" "off b + e \<le> cap (buf bA)" "written bA = written b" "valid bA"
  proof (cases "off b + e > cap (buf b)")
    case True
    obtain b1 where "grow e b = Some b1" "off b1 = off b" "len (buf b1) = off b + e"
      "len (buf b1) \<le> cap (buf b1)" "written b1 = written b"
      using grow_effect[OF v0, of e] by blast
    then show ?thesis using True that[of b1] by (simp add: valid_def)
  next
    case False
    then show ?thesis using v that[of b] by simp
  qed
  have vA: "len (buf bA) \<le> cap (buf bA)" "off bA \<le> cap (buf bA)"
    using bA(5) by (auto simp: valid_def)
  obtain bB where bB: "WriteByte (CHR ''['') bA = Some bB" "off bB = off bA + 1"
    "len (buf bB) = off bA + 1" "written bB = written bA @ [CHR ''['']" "valid bB"
    using WriteByte_effect[OF vA, of "CHR ''[''"] by blast
  have cB: "cap (buf bB) = cap (buf bA)"
    using WriteByte_within[OF _ bB(1)] bA(2,3) by (simp add: e_def)
  have vB: "len (buf bB) \<le> cap (buf bB)" "off bB \<le> cap (buf bB)"
    using bB(5) by (auto simp: valid_def)
  obtain bC where bC: "WriteByte quote bB = Some bC" "off bC = off bB + 1"
    "len (buf bC) = off bB + 1" "written bC = written bB @ [quote]" "valid bC"
    using WriteByte_effect[OF vB, of quote] by blast
  have cC: "cap (buf bC) = cap (buf bA)"
    using WriteByte_within[OF _ bC(1)] bA(2,3) bB(2) cB by (simp add: e_def)
  have fit: "\<not> off bC + length s > cap (buf bC)"
    using bA(2,3) bB(2) bC(2) cC by (simp add: e_def)
  obtain bD where bD: "WriteString s bC = Some (0, bD)" "written bD = written bC" "valid bD"
    using WriteString_exact[OF bC(5), of s] fit bC(2,3) by auto
  have vD: "len (buf bD) \<le> cap (buf bD)" "off bD \<le> cap (buf bD)"
    using bD(3) by (auto simp: valid_def)
  obtain bE where bE: "WriteByte quote bD = Some bE" "written bE = written bD @ [quote]" "valid bE"
    using WriteByte_effect[OF vD, of quote] by blast
  have vE: "len (buf bE) \<le> cap (buf bE)" "off bE \<le> cap (buf bE)"
    using bE(3) by (auto simp: valid_def)
  obtain bF where bF: "WriteByte (CHR '']'') bE = Some bF"
    "written bF = written bE @ [CHR '']'']" "valid bF"
    using WriteByte_effect[OF vE, of "CHR '']''"] by blast
  have loop: "marshalArray_loop [s] 0 bB = Some bE"
    using p bC(1) bD(1) bE(1) by simp
  have est: "2 + (length [s] - 1) + (sum_list (map (\<lambda>s. length s + 2 + countEscapeChars s * 5)
        (take (min (length [s]) 3) [s])) div min (length [s]) 3) * length [s] = e"
    using needsEscaping_plain[OF p] by (simp add: e_def)
  have "marshalArray [s] b = Some bF"
    unfolding marshalArray_def Let_def est using bA(1) bB(1) loop bF(1) by simp
  then show ?thesis
    using bF bE bD bC bB bA by simp
qed

lemma Marshal_single_string:
  assumes "\<not> needsEscaping s"
  shows "fst (Marshal AppendInt ps (VStrings [s])) = Some (Inr [CHR ''['', quote, quote, CHR '']''])"
proof -
  obtain b ps1 where g: "getBuffer ps = (b, ps1)" by (cases "getBuffer ps")
  have f: "valid b" "off b = 0" "len (buf b) = 0"
    using getBufferSize_fresh[OF g[unfolded getBuffer_def]]
      getBufferSize_len[OF g[unfolded getBuffer_def]] by auto
  obtain b' where m: "marshalArray [s] b = Some b'" "valid b'"
    "written b' = written b @ [CHR ''['', quote, quote, CHR '']'']"
    using marshalArray_single[OF f(1) _ assms] f(2,3) by auto
  have w: "written b = []" using f(2) by (simp add: written_def)
  have oc: "off b' \<le> cap (buf b')" using m(2) by (simp add: valid_def)
  have "bytes (buf b'\<lparr>len := off b'\<rparr>) = written b'" by (simp add: bytes_def written_def)
  then show ?thesis using g m w oc by (simp add: Marshal_def reslice_def)
qed

text \<open>
  Claim C5 (the code evaluated at three failing inputs, for every state of the pools).
  The escape table has five entries and the escaper consults nothing else: the string
  that holds the control byte 0x01 is emitted as the byte itself between two quotes,
  not as \<^verbatim>\<open>\u0001\<close>. The escaper reserves \<open>length s + 16\<close> bytes and its copies stop at that
  bound: of the 34 bytes that escape seventeen quotes 33 are emitted, and the backslash
  of the last escape is followed by the closing quote. In a sequence of strings an
  element without a byte to escape goes to \<^verbatim>\<open>WriteString\<close>, which copies into a slice that
  ends at the offset: of \<^verbatim>\<open>["ab"]\<close> the output is \<^verbatim>\<open>[""]\<close>.
\<close>

theorem Marshal_strings_lost:
  "fst (Marshal AppendInt ps (VString [CHR 0x01])) = Some (Inr [quote, CHR 0x01, quote])
   \<and> fst (Marshal AppendInt ps (VString (replicate 17 quote)))
       = Some (Inr (quote # concat (replicate 16 [backslash, quote]) @ [backslash, quote]))
   \<and> fst (Marshal AppendInt ps (VStrings [''ab'']))
       = Some (Inr [CHR ''['', quote, quote, CHR '']''])"
proof -
  have a: "fst (Marshal AppendInt ps (VString [CHR 0x01])) = Some (Inr [quote, CHR 0x01, quote])"
    using Marshal_string[of AppendInt ps "[CHR 0x01]"]
    by (simp add: escape_def escape_byte_def escapeMap_def)
  have b: "fst (Marshal AppendInt ps (VString (replicate 17 quote)))
       = Some (Inr (quote # concat (replicate 16 [backslash, quote]) @ [backslash, quote]))"
    using Marshal_string[of AppendInt ps "replicate 17 quote"]
    by (simp add: escape_def escape_byte_def escapeMap_def eval_nat_numeral)
  have c: "fst (Marshal AppendInt ps (VStrings [''ab'']))
       = Some (Inr [CHR ''['', quote, quote, CHR '']''])"
    by (rule Marshal_single_string) simp
  show ?thesis using a b c by blast
qed

section \<open>The unmarshaller (marshal_unmarshal.go, apexJSON.go)\<close>

text \<open>
  A destination is what \<^verbatim>\<open>unmarshalValue\<close> asks of its \<^verbatim>\<open>reflect.Value\<close>: the kind, the
  number of methods of an interface type, and whether the value is addressable with a
  pointer type that implements \<^verbatim>\<open>Unmarshaler\<close>.
\<close>

datatype Kind =
    KBool | KInt | KUint | KFloat | KString | KInterface | KPtr | KMap | KSlice | KArray
  | KStruct | KOther

record Dest =
  kind :: Kind
  numMethod :: nat
  implementsUnmarshaler :: bool

text \<open>The two error types, with the message and offset, or the \<^verbatim>\<open>Value\<close> field.\<close>

datatype uerror = SyntaxError string nat | UnmarshalTypeError string

text \<open>
  What a call does to its destination: it fails, it stores a value (the zero value of
  the destination's type, a boolean, a string), or it returns what another function
  returns, called on the parser state given with it. The composite decoders, a custom
  \<^verbatim>\<open>UnmarshalJSON\<close> and \<^verbatim>\<open>setNumber\<close> (which rests on \<^verbatim>\<open>strconv\<close>) are such callees.
\<close>

datatype stored = SetZero | SetBool bool | SetString string

datatype callee =
    UnmarshalToStruct | UnmarshalToMap | UnmarshalToSlice | UnmarshalJSON string
  | SetNumber string

datatype outcome = Failed uerror | Stored stored | Calls callee

definition setNull :: "Dest \<Rightarrow> outcome" where
  "setNull v =
     (if kind v = KInterface \<or> kind v = KPtr \<or> kind v = KMap \<or> kind v = KSlice
      then Stored SetZero
      else Failed (UnmarshalTypeError ''null''))"

definition setBool :: "Dest \<Rightarrow> bool \<Rightarrow> outcome" where
  "setBool v b =
     (if kind v = KBool then Stored (SetBool b)
      else if kind v = KInterface \<and> numMethod v = 0 then Stored (SetBool b)
      else Failed (UnmarshalTypeError ''bool''))"

definition setString :: "Dest \<Rightarrow> string \<Rightarrow> outcome" where
  "setString v s =
     (if kind v = KString then Stored (SetString s)
      else if kind v = KInterface \<and> numMethod v = 0 then Stored (SetString s)
      else Failed (UnmarshalTypeError ''string''))"

text \<open>
  \<^verbatim>\<open>unmarshalValue\<close>, with the parser state it leaves. The result is \<open>None\<close> only if
  \<^verbatim>\<open>skipValue\<close> does not return, which never happens.
\<close>

definition unmarshalValue :: "Parser \<Rightarrow> Dest \<Rightarrow> (outcome \<times> Parser) option" where
  "unmarshalValue p0 v =
     (let p = skipWhitespace p0 in
      if pos p \<ge> length (data p) then
        Some (Failed (SyntaxError ''unexpected end of JSON input'' (pos p)), p)
      else if implementsUnmarshaler v then
        (case skipValue p of
           None \<Rightarrow> None
         | Some (ok, p1) \<Rightarrow>
             if \<not> ok then Some (Failed (SyntaxError ''invalid JSON value'' (pos p1)), p1)
             else Some (Calls (UnmarshalJSON (slice (data p1) (pos p) (pos p1))), p1))
      else
        (let c = data p ! pos p in
         if c = CHR ''n'' then Some (setNull v, p\<lparr>pos := pos p + 4\<rparr>)
         else if c = CHR ''t'' then Some (setBool v True, p\<lparr>pos := pos p + 4\<rparr>)
         else if c = CHR ''f'' then Some (setBool v False, p\<lparr>pos := pos p + 5\<rparr>)
         else if c = quote then
           (case parseString p of
              (tokenType, val, p1) \<Rightarrow>
                if tokenType \<noteq> TokenString
                then Some (Failed (SyntaxError ''invalid string'' (pos p1)), p1)
                else Some (setString v val, p1))
         else if c = CHR ''{'' \<and> kind v = KStruct then Some (Calls UnmarshalToStruct, p)
         else if c = CHR ''{'' \<and> kind v = KMap then Some (Calls UnmarshalToMap, p)
         else if c = CHR ''['' \<and> (kind v = KSlice \<or> kind v = KArray)
           then Some (Calls UnmarshalToSlice, p)
         else if c = CHR ''-'' \<or> isDigit c then
           (case parseNumber p of
              (tokenType, val, p1) \<Rightarrow>
                if tokenType \<noteq> TokenNumber
                then Some (Failed (SyntaxError ''invalid number'' (pos p1)), p1)
                else Some (Calls (SetNumber val), p1))
         else Some (Failed (SyntaxError ''invalid JSON value'' (pos p)), p)))"

text \<open>\<^verbatim>\<open>Unmarshal\<close>; the destination is the value its pointer argument points to.\<close>

definition Unmarshal :: "string \<Rightarrow> Dest \<Rightarrow> (outcome \<times> Parser) option" where
  "Unmarshal d v = unmarshalValue (NewParser d) v"

lemma unmarshalValue_total: "\<exists>r. unmarshalValue p v = Some r"
proof -
  obtain ok p1 where "skipValue (skipWhitespace p) = Some (ok, p1)"
    using skipValue_total[of "skipWhitespace p"] by blast
  then show ?thesis
    by (auto simp: unmarshalValue_def Let_def split: prod.splits)
qed

lemma Unmarshal_empty:
  "Unmarshal [] v = Some (Failed (SyntaxError ''unexpected end of JSON input'' 0), NewParser [])"
proof -
  have "skipWhitespace (NewParser []) = NewParser []"
    by (subst skipWhitespace.simps) (simp add: NewParser_def)
  then show ?thesis by (simp add: Unmarshal_def unmarshalValue_def NewParser_def)
qed

text \<open>
  Claim C3. When the first byte after the white space is \<open>n\<close>, \<^verbatim>\<open>unmarshalValue\<close> moves
  the cursor four bytes on and returns what \<^verbatim>\<open>setNull\<close> returns: the zero value is stored
  in an interface, pointer, map or slice destination, and every other destination, an
  integer among them, gets the type error for \<^verbatim>\<open>null\<close>. The three bytes after the \<open>n\<close> are
  never read: no input that starts with \<open>n\<close> is a syntax error, and the cursor may pass
  the end of the input.
\<close>

theorem unmarshalValue_n:
  assumes "\<not> implementsUnmarshaler v"
    and "pos (skipWhitespace p) < length (data p)"
    and "data p ! pos (skipWhitespace p) = CHR ''n''"
  shows "unmarshalValue p v
     = Some (if kind v = KInterface \<or> kind v = KPtr \<or> kind v = KMap \<or> kind v = KSlice
             then Stored SetZero else Failed (UnmarshalTypeError ''null''),
             \<lparr>data = data p, pos = pos (skipWhitespace p) + 4\<rparr>)"
proof -
  have d: "data (skipWhitespace p) = data p" using skipWhitespace_mono[of p] by simp
  have "(skipWhitespace p)\<lparr>pos := pos (skipWhitespace p) + 4\<rparr>
      = \<lparr>data = data p, pos = pos (skipWhitespace p) + 4\<rparr>"
    using d by (cases "skipWhitespace p") simp
  then show ?thesis using assms d by (simp add: unmarshalValue_def Let_def setNull_def)
qed

definition pointer_dest :: Dest where
  "pointer_dest = \<lparr>kind = KPtr, numMethod = 0, implementsUnmarshaler = False\<rparr>"

definition int_dest :: Dest where
  "int_dest = \<lparr>kind = KInt, numMethod = 0, implementsUnmarshaler = False\<rparr>"

lemma skipWhitespace_nope: "skipWhitespace (NewParser '' nope'') = \<lparr>data = '' nope'', pos = 1\<rparr>"
  by code_simp

theorem unmarshalValue_n_witness:
  "Unmarshal '' nope'' pointer_dest = Some (Stored SetZero, \<lparr>data = '' nope'', pos = 5\<rparr>)"
proof -
  have a: "\<not> implementsUnmarshaler pointer_dest" by (simp add: pointer_dest_def)
  have b: "pos (skipWhitespace (NewParser '' nope'')) < length (data (NewParser '' nope''))"
    unfolding skipWhitespace_nope by (simp add: NewParser_def)
  have c: "data (NewParser '' nope'') ! pos (skipWhitespace (NewParser '' nope'')) = CHR ''n''"
    unfolding skipWhitespace_nope by (simp add: NewParser_def)
  show ?thesis
    using unmarshalValue_n[OF a b c] unfolding skipWhitespace_nope
    by (simp add: Unmarshal_def NewParser_def pointer_dest_def)
qed

text \<open>
  The same bytes on the other paths of the repository: \<^verbatim>\<open>skipValue\<close> compares them with
  the literal and refuses; \<^verbatim>\<open>unmarshalValue\<close> takes a lone \<open>n\<close> for \<^verbatim>\<open>null\<close> and leaves the
  cursor three bytes past the end; and \<^verbatim>\<open>null\<close> itself behaves as the claim says.
\<close>

lemma unmarshalValue_n_examples:
  "skipValue (NewParser ''nope'') = Some (False, \<lparr>data = ''nope'', pos = 0\<rparr>)
   \<and> Unmarshal ''n'' pointer_dest = Some (Stored SetZero, \<lparr>data = ''n'', pos = 4\<rparr>)
   \<and> Unmarshal ''nope'' int_dest
       = Some (Failed (UnmarshalTypeError ''null''), \<lparr>data = ''nope'', pos = 4\<rparr>)
   \<and> Unmarshal ''null'' pointer_dest = Some (Stored SetZero, \<lparr>data = ''null'', pos = 4\<rparr>)
   \<and> Unmarshal ''null'' int_dest
       = Some (Failed (UnmarshalTypeError ''null''), \<lparr>data = ''null'', pos = 4\<rparr>)"
  by code_simp

subsection \<open>What the marshaller emits\<close>

text \<open>
  The descriptor \<^verbatim>\<open>computeStructFields\<close> builds for a field: the name, the name between
  quotes with a colon, and the \<^verbatim>\<open>omitempty\<close> flag; \<^verbatim>\<open>stringOpt\<close> is left at its zero value.
\<close>

definition newField :: "string \<Rightarrow> bool \<Rightarrow> Field" where
  "newField name omitempty =
     \<lparr>nameBytes = name, nameWithQuotesBytes = quote # name @ [quote, CHR '':''],
      omitEmpty = omitempty, stringOpt = False\<rparr>"

text \<open>
  The bytes that reach the output (the buffer up to its offset). Only \<^verbatim>\<open>WriteByte\<close> and
  the escaper move the offset: what \<^verbatim>\<open>Write\<close> is given (\<^verbatim>\<open>null\<close>, \<^verbatim>\<open>true\<close>, \<^verbatim>\<open>false\<close>, the
  digits of a number, the name of a field with its colon) is stored beyond the offset
  and overwritten by the next write. For a sequence of strings and for a value of a
  rejected kind the description says nothing (\<open>supported\<close> excludes them).
\<close>

fun emitted :: "gvalue \<Rightarrow> string"
  and emitted_fields :: "(Field \<times> gvalue) list \<Rightarrow> nat \<Rightarrow> string" where
  "emitted VInvalid = []"
| "emitted (VPtr None) = []"
| "emitted (VPtr (Some v)) = emitted v"
| "emitted (VString s) = quote # take (length s + 16) (escape s) @ [quote]"
| "emitted (VBool v) = []"
| "emitted (VInt i) = []"
| "emitted (VStruct fs) = CHR ''{'' # emitted_fields fs 0 @ [CHR ''}'']"
| "emitted (VUnsupported t) = []"
| "emitted (VStrings xs) = []"
| "emitted_fields [] fieldCount = []"
| "emitted_fields ((f, fv) # rest) fieldCount =
     (if omitEmpty f \<and> isEmptyValue fv then emitted_fields rest fieldCount
      else (if fieldCount > 0 then [CHR '',''] else [])
        @ (if stringOpt f \<and> numeric_or_bool fv then quote # emitted fv @ [quote] else emitted fv)
        @ emitted_fields rest (fieldCount + 1))"

text \<open>The values with no part that is of a rejected kind or a sequence of strings.\<close>

fun supported :: "gvalue \<Rightarrow> bool"
  and supported_fields :: "(Field \<times> gvalue) list \<Rightarrow> bool" where
  "supported (VPtr (Some v)) = supported v"
| "supported (VStruct fs) = supported_fields fs"
| "supported (VUnsupported t) = False"
| "supported (VStrings xs) = False"
| "supported VInvalid = True"
| "supported (VPtr None) = True"
| "supported (VString s) = True"
| "supported (VBool v) = True"
| "supported (VInt i) = True"
| "supported_fields [] = True"
| "supported_fields ((f, fv) # rest) = (supported fv \<and> supported_fields rest)"

lemma WriteByte_valid:
  assumes "valid b"
  shows "\<exists>b'. WriteByte c b = Some b' \<and> valid b' \<and> written b' = written b @ [c]"
proof -
  have "len (buf b) \<le> cap (buf b)" "off b \<le> cap (buf b)"
    using assms by (auto simp: valid_def)
  from WriteByte_effect[OF this, of c] show ?thesis by blast
qed

lemma Write_valid:
  assumes "valid b"
  shows "\<exists>b'. Write p b = Some (length p, b') \<and> valid b' \<and> written b' = written b"
proof -
  have "len (buf b) \<le> cap (buf b)" "off b \<le> cap (buf b)"
    using assms by (auto simp: valid_def)
  from Write_effect[OF this, of p] show ?thesis by blast
qed

lemma marshal_emits:
  "valid b \<longrightarrow> supported v \<longrightarrow>
     (\<exists>b'. marshalValue AppendInt v b = Some (None, b') \<and> valid b'
        \<and> written b' = written b @ emitted v)"
  "valid b \<longrightarrow> supported_fields fs \<longrightarrow>
     (\<exists>b'. marshalFields AppendInt fs n b = Some (None, b') \<and> valid b'
        \<and> written b' = written b @ emitted_fields fs n)"
proof (induction AppendInt v b and AppendInt fs n b rule: marshalValue_marshalFields.induct)
  case (1 AppendInt b)
  show ?case using Write_valid[of b "''null''"] by auto
next
  case (2 AppendInt b)
  show ?case using Write_valid[of b "''null''"] by auto
next
  case (3 AppendInt v b)
  then show ?case by simp
next
  case (4 AppendInt s b)
  show ?case using marshal_string[of b AppendInt s] by auto
next
  case (5 AppendInt v b)
  show ?case using Write_valid[of b "if v then ''true'' else ''false''"] by auto
next
  case (6 AppendInt i b)
  show ?case using Write_valid[of b "AppendInt i"] by auto
next
  case (7 AppendInt fs b)
  show ?case
  proof (intro impI)
    assume v: "valid b" and s: "supported (VStruct fs)"
    obtain b1 where b1: "WriteByte (CHR ''{'') b = Some b1" "valid b1"
      "written b1 = written b @ [CHR ''{'']"
      using WriteByte_valid[OF v] by blast
    obtain b2 where b2: "marshalFields AppendInt fs 0 b1 = Some (None, b2)" "valid b2"
      "written b2 = written b1 @ emitted_fields fs 0"
      using 7[OF b1(1)] b1(2) s by auto
    obtain b3 where b3: "WriteByte (CHR ''}'') b2 = Some b3" "valid b3"
      "written b3 = written b2 @ [CHR ''}'']"
      using WriteByte_valid[OF b2(2)] by blast
    show "\<exists>b'. marshalValue AppendInt (VStruct fs) b = Some (None, b') \<and> valid b'
        \<and> written b' = written b @ emitted (VStruct fs)"
      using b1 b2 b3 by simp
  qed
next
  case (8 AppendInt t b)
  show ?case by simp
next
  case (9 AppendInt xs b)
  show ?case by simp
next
  case (10 AppendInt fieldCount b)
  show ?case by simp
next
  case (11 AppendInt f fv rest fieldCount b)
  show ?case
  proof (intro impI)
    assume v: "valid b" and s: "supported_fields ((f, fv) # rest)"
    have sv: "supported fv" and sr: "supported_fields rest" using s by auto
    show "\<exists>b'. marshalFields AppendInt ((f, fv) # rest) fieldCount b = Some (None, b') \<and> valid b'
        \<and> written b' = written b @ emitted_fields ((f, fv) # rest) fieldCount"
    proof (cases "omitEmpty f \<and> isEmptyValue fv")
      case True
      then show ?thesis using "11.IH"(1)[OF True] v sr by simp
    next
      case no: False
      obtain b1 where b1: "(if 0 < fieldCount then WriteByte (CHR '','') b else Some b) = Some b1"
        "valid b1" "written b1 = written b @ (if fieldCount > 0 then [CHR '',''] else [])"
        using WriteByte_valid[OF v, of "CHR '',''"] v by (cases "0 < fieldCount") auto
      obtain b2 where b2: "Write (nameWithQuotesBytes f) b1 = Some (length (nameWithQuotesBytes f), b2)"
        "valid b2" "written b2 = written b1"
        using Write_valid[OF b1(2)] by blast
      show ?thesis
      proof (cases "stringOpt f \<and> numeric_or_bool fv")
        case so: True
        obtain b3 where b3: "WriteByte quote b2 = Some b3" "valid b3"
          "written b3 = written b2 @ [quote]"
          using WriteByte_valid[OF b2(2)] by blast
        obtain b4 where b4: "marshalValue AppendInt fv b3 = Some (None, b4)" "valid b4"
          "written b4 = written b3 @ emitted fv"
          using "11.IH"(2)[OF no b1(1) b2(1) refl so b3(1)] b3(2) sv by auto
        obtain b5 where b5: "WriteByte quote b4 = Some b5" "valid b5"
          "written b5 = written b4 @ [quote]"
          using WriteByte_valid[OF b4(2)] by blast
        obtain b6 where b6: "marshalFields AppendInt rest (fieldCount + 1) b5 = Some (None, b6)"
          "valid b6" "written b6 = written b5 @ emitted_fields rest (fieldCount + 1)"
          using "11.IH"(3)[OF no b1(1) b2(1) refl so b3(1) b4(1) refl refl b5(1)] b5(2) sr
          by auto
        have "marshalFields AppendInt ((f, fv) # rest) fieldCount b = Some (None, b6)"
          using no so b1(1) b2(1) b3(1) b4(1) b5(1) b6(1) by auto
        moreover have "written b6 = written b @ emitted_fields ((f, fv) # rest) fieldCount"
          using no so b1(3) b2(3) b3(3) b4(3) b5(3) b6(3) by auto
        ultimately show ?thesis using b6(2) by blast
      next
        case nso: False
        obtain b3 where b3: "marshalValue AppendInt fv b2 = Some (None, b3)" "valid b3"
          "written b3 = written b2 @ emitted fv"
          using "11.IH"(4)[OF no b1(1) b2(1) refl nso] b2(2) sv by auto
        obtain b4 where b4: "marshalFields AppendInt rest (fieldCount + 1) b3 = Some (None, b4)"
          "valid b4" "written b4 = written b3 @ emitted_fields rest (fieldCount + 1)"
          using "11.IH"(5)[OF no b1(1) b2(1) refl nso b3(1) refl refl] b3(2) sr by auto
        have "marshalFields AppendInt ((f, fv) # rest) fieldCount b = Some (None, b4)"
          using no nso b1(1) b2(1) b3(1) b4(1) by auto
        moreover have "written b4 = written b @ emitted_fields ((f, fv) # rest) fieldCount"
          using no nso b1(3) b2(3) b3(3) b4(3) by auto
        ultimately show ?thesis using b4(2) by blast
      qed
    qed
  qed
qed

lemma Marshal_emits:
  assumes "supported v"
  shows "fst (Marshal AppendInt ps v) = Some (Inr (emitted v))"
proof -
  obtain b ps1 where g: "getBuffer ps = (b, ps1)" by (cases "getBuffer ps")
  have f: "valid b" "off b = 0"
    using getBufferSize_fresh[OF g[unfolded getBuffer_def]] by auto
  obtain b' where m: "marshalValue AppendInt v b = Some (None, b')" "valid b'"
    "written b' = written b @ emitted v"
    using marshal_emits(1)[of b v AppendInt] f(1) assms by blast
  have w: "written b = []" using f(2) by (simp add: written_def)
  have oc: "off b' \<le> cap (buf b')" using m(2) by (simp add: valid_def)
  have "bytes (buf b'\<lparr>len := off b'\<rparr>) = written b'" by (simp add: bytes_def written_def)
  then show ?thesis using g m w oc by (simp add: Marshal_def reslice_def)
qed

text \<open>The value of the usage example: \<^verbatim>\<open>User{Name: "Alex", Age: 28}\<close>.\<close>

definition example_user :: gvalue where
  "example_user =
     VStruct [(newField ''Name'' False, VString ''Alex''), (newField ''Age'' False, VInt 28)]"

text \<open>
  Claim C1. \<^verbatim>\<open>Marshal\<close> returns the buffer up to its offset, and the literals, the digits
  of a number and the names of fields are written with \<^verbatim>\<open>Write\<close>, which leaves the offset
  where it is. So every boolean and every integer is marshalled to the empty output,
  with no error, and \<^verbatim>\<open>Unmarshal\<close> of the empty input is a syntax error for every
  destination: the round trip fails on \<^verbatim>\<open>true\<close>. The value of the usage example comes
  out as \<^verbatim>\<open>{"Alex",}\<close>, without the names and without the number.
\<close>

theorem Marshal_round_trip:
  "fst (Marshal AppendInt ps (VBool t)) = Some (Inr [])
   \<and> fst (Marshal AppendInt ps (VInt i)) = Some (Inr [])
   \<and> Unmarshal [] d
       = Some (Failed (SyntaxError ''unexpected end of JSON input'' 0), NewParser [])
   \<and> fst (Marshal AppendInt ps example_user)
       = Some (Inr (CHR ''{'' # quote # ''Alex'' @ [quote, CHR '','', CHR ''}'']))"
proof -
  have a: "fst (Marshal AppendInt ps (VBool t)) = Some (Inr [])"
    using Marshal_emits[of "VBool t" AppendInt ps] by simp
  have b: "fst (Marshal AppendInt ps (VInt i)) = Some (Inr [])"
    using Marshal_emits[of "VInt i" AppendInt ps] by simp
  have e: "escape ''Alex'' = ''Alex''"
    by (simp add: escape_def escape_byte_def escapeMap_def)
  have c: "fst (Marshal AppendInt ps example_user)
      = Some (Inr (CHR ''{'' # quote # ''Alex'' @ [quote, CHR '','', CHR ''}'']))"
    using Marshal_emits[of example_user AppendInt ps]
    by (simp add: example_user_def newField_def e)
  show ?thesis using a b c Unmarshal_empty[of d] by simp
qed

text \<open>Strings do come back: the escaper moves the offset itself.\<close>

lemma Marshal_string_round_trip:
  "fst (Marshal AppendInt ps (VString ''Alex'')) = Some (Inr (quote # ''Alex'' @ [quote]))
   \<and> Unmarshal (quote # ''Alex'' @ [quote])
        \<lparr>kind = KString, numMethod = 0, implementsUnmarshaler = False\<rparr>
       = Some (Stored (SetString ''Alex''), \<lparr>data = quote # ''Alex'' @ [quote], pos = 6\<rparr>)"
proof -
  have e: "escape ''Alex'' = ''Alex''"
    by (simp add: escape_def escape_byte_def escapeMap_def)
  have a: "fst (Marshal AppendInt ps (VString ''Alex'')) = Some (Inr (quote # ''Alex'' @ [quote]))"
    using Marshal_emits[of "VString ''Alex''" AppendInt ps] by (simp add: e)
  have b: "Unmarshal (quote # ''Alex'' @ [quote])
        \<lparr>kind = KString, numMethod = 0, implementsUnmarshaler = False\<rparr>
       = Some (Stored (SetString ''Alex''), \<lparr>data = quote # ''Alex'' @ [quote], pos = 6\<rparr>)"
    by code_simp
  show ?thesis using a b by simp
qed

section \<open>The streaming decoder (apexJSON.go)\<close>

text \<open>
  The errors of the decoder: \<^verbatim>\<open>io.EOF\<close>, and the errors made with \<^verbatim>\<open>fmt.Errorf\<close>, by their
  message.
\<close>

datatype derror = EOF | Errorf string

text \<open>
  The decoder reads from a source of bytes that behaves as \<^verbatim>\<open>bytes.Reader\<close> does: \<^verbatim>\<open>Read\<close>
  hands out the next bytes, at most as many as the slice it is given holds, and returns
  no bytes and \<^verbatim>\<open>io.EOF\<close> once the source is exhausted. \<open>reader\<close> (the field \<^verbatim>\<open>r\<close>) is what is
  left of the source, \<open>dbuf\<close> is the field \<^verbatim>\<open>buf\<close>. The field \<^verbatim>\<open>tokenBuf\<close> is empty whenever
  \<^verbatim>\<open>readValue\<close> is entered or left (it is taken from the pool on entry, and restored and
  reset on every return), so it is a variable of the scanning loop here. The lines that
  print to the standard output are left out.
\<close>

record Decoder =
  reader :: string
  dbuf :: string
  readPos :: nat
  useNumber :: bool

definition NewDecoder :: "string \<Rightarrow> Decoder" where
  "NewDecoder src = \<lparr>reader = src, dbuf = [], readPos = 0, useNumber = False\<rparr>"

definition Read :: "nat \<Rightarrow> string \<Rightarrow> (string \<times> derror option) \<times> string" where
  "Read k src = (if src = [] then (([], Some EOF), src) else ((take k src, None), drop k src))"

text \<open>\<^verbatim>\<open>refillBuffer\<close>: whatever was read, the read position goes back to 0.\<close>

definition refillBuffer :: "Decoder \<Rightarrow> derror option \<times> Decoder" where
  "refillBuffer d =
     (case Read 512 (reader d) of
        ((temp, err0), rest) \<Rightarrow>
          let n = length temp;
              err = (if err0 = Some EOF \<and> n > 0 then None else err0);
              d1 = d\<lparr>reader := rest\<rparr>;
              d2 = (if n > 0 then d1\<lparr>dbuf := dbuf d1 @ temp\<rparr> else d1)
          in if err \<noteq> None \<and> err \<noteq> Some EOF then (err, d2)
             else (None, d2\<lparr>readPos := 0\<rparr>))"

text \<open>
  The inner loop of \<^verbatim>\<open>Decoder.skipWhitespace\<close>: \<open>True\<close> when it returned at a byte that is
  not white space, \<open>False\<close> when it ran to the end of the buffer.
\<close>

function skipBuffered :: "Decoder \<Rightarrow> bool \<times> Decoder" where
  "skipBuffered d =
     (if readPos d < length (dbuf d) then
        (let c = dbuf d ! readPos d in
         if c \<noteq> space \<and> c \<noteq> tab \<and> c \<noteq> newline \<and> c \<noteq> creturn then (True, d)
         else skipBuffered (d\<lparr>readPos := readPos d + 1\<rparr>))
      else (False, d))"
  by pat_completeness auto
termination
  by (relation "measure (\<lambda>d. length (dbuf d) - readPos d)") auto

declare skipBuffered.simps [simp del]

text \<open>
  \<^verbatim>\<open>Decoder.skipWhitespace\<close>. The outer loop has no bound: the result is \<open>None\<close> when it
  does not return.
\<close>

partial_function (option) Decoder_skipWhitespace :: "Decoder \<Rightarrow> (derror option \<times> Decoder) option" where
  "Decoder_skipWhitespace d =
     (case skipBuffered d of
        (found, d1) \<Rightarrow>
          if found then Some (None, d1)
          else
            (case refillBuffer d1 of
               (Some err, d2) \<Rightarrow> Some (Some err, d2)
             | (None, d2) \<Rightarrow>
                 if length (dbuf d2) = 0 then Some (Some EOF, d2)
                 else Decoder_skipWhitespace d2))"

text \<open>
  \<^verbatim>\<open>AppendBuffers\<close>: a copy of the only buffer, or what a pooled buffer holds up to its
  offset after a \<^verbatim>\<open>Write\<close> of each buffer. \<open>None\<close> is a panic.
\<close>

fun write_all :: "string list \<Rightarrow> Buffer \<Rightarrow> Buffer option" where
  "write_all [] b = Some b"
| "write_all (x # xs) b = (case Write x b of None \<Rightarrow> None | Some (n, b1) \<Rightarrow> write_all xs b1)"

definition AppendBuffers :: "string list \<Rightarrow> Pools \<Rightarrow> string option \<times> Pools" where
  "AppendBuffers buffers ps =
     (if length buffers = 0 then (Some [], ps)
      else if length buffers = 1 then (Some (buffers ! 0), ps)
      else
        (case getBufferSize (int (sum_list (map length buffers))) ps of
           (b, ps1) \<Rightarrow>
             (case write_all buffers b of
                None \<Rightarrow> (None, ps1)
              | Some b1 \<Rightarrow>
                  (case reslice (buf b1) (off b1) of
                     None \<Rightarrow> (None, putBuffer (Some b1) ps1)
                   | Some r \<Rightarrow> (Some (bytes r), putBuffer (Some b1) ps1)))))"

text \<open>The result of \<^verbatim>\<open>readValue\<close>: a panic, an error, or the bytes of a value.\<close>

datatype rvalue = Panic | Err derror | Val string

text \<open>The variables of the scanning loop.\<close>

record Scan =
  tokenBuf :: string
  buffers :: "string list"
  depth :: int
  inString :: bool
  escaped :: bool

definition returnBuffers :: "string list \<Rightarrow> Decoder \<Rightarrow> Pools \<Rightarrow> rvalue \<times> Decoder \<times> Pools" where
  "returnBuffers bs d ps =
     (case AppendBuffers bs ps of
        (None, ps1) \<Rightarrow> (Panic, d, ps1)
      | (Some result, ps1) \<Rightarrow> (Val result, d, ps1))"

text \<open>The loop that skips the white space at the start of \<^verbatim>\<open>readValue\<close>.\<close>

partial_function (option) readValue_skip :: "Decoder \<Rightarrow> (derror option \<times> Decoder) option" where
  "readValue_skip d =
     (if readPos d < length (dbuf d) \<and> isWhitespace (dbuf d ! readPos d) then
        (let d1 = d\<lparr>readPos := readPos d + 1\<rparr> in
         if readPos d1 \<ge> length (dbuf d1) then
           (case refillBuffer d1 of
              (Some err, d2) \<Rightarrow> Some (Some err, d2)
            | (None, d2) \<Rightarrow> readValue_skip d2)
         else readValue_skip d1)
      else Some (None, d))"

text \<open>What the main loop does when \<^verbatim>\<open>refillBuffer\<close> returns an error.\<close>

definition refill_failed :: "derror \<Rightarrow> Scan \<Rightarrow> Decoder \<Rightarrow> Pools \<Rightarrow> rvalue \<times> Decoder \<times> Pools" where
  "refill_failed err s d ps =
     (if err = EOF \<and> length (tokenBuf s) > 0 then
        (if depth s > 0 then (Err (Errorf ''unexpected end of JSON input: unclosed structure''), d, ps)
         else if isCompleteLiteral (tokenBuf s) then returnBuffers (buffers s @ [tokenBuf s]) d ps
         else if length (tokenBuf s) \<ge> 2
              \<and> ((tokenBuf s ! 0 = CHR ''{'' \<and> tokenBuf s ! (length (tokenBuf s) - 1) = CHR ''}'')
                 \<or> (tokenBuf s ! 0 = CHR ''['' \<and> tokenBuf s ! (length (tokenBuf s) - 1) = CHR '']''))
           then returnBuffers (buffers s @ [tokenBuf s]) d ps
         else (Err err, d, ps))
      else (Err err, d, ps))"

text \<open>The step that moves a full token buffer to the list of buffers.\<close>

definition flush :: "Scan \<Rightarrow> Scan" where
  "flush s =
     (if length (tokenBuf s) \<ge> 4096 then s\<lparr>buffers := buffers s @ [tokenBuf s], tokenBuf := []\<rparr>
      else s)"

text \<open>The main loop of \<^verbatim>\<open>readValue\<close>.\<close>

partial_function (option) readValue_loop ::
    "char \<Rightarrow> Scan \<Rightarrow> Decoder \<Rightarrow> Pools \<Rightarrow> (rvalue \<times> Decoder \<times> Pools) option" where
  "readValue_loop firstChar s0 d0 ps =
     (case (if readPos d0 \<ge> length (dbuf d0) then refillBuffer d0 else (None, d0)) of
        (Some err, d) \<Rightarrow> Some (refill_failed err s0 d ps)
      | (None, d) \<Rightarrow>
          if readPos d \<ge> length (dbuf d) then Some (Panic, d, ps)
          else
            (let c = dbuf d ! readPos d;
                 s = s0\<lparr>tokenBuf := tokenBuf s0 @ [c]\<rparr>;
                 d1 = d\<lparr>readPos := readPos d + 1\<rparr>
             in
             if inString s then
               (if escaped s then readValue_loop firstChar (s\<lparr>escaped := False\<rparr>) d1 ps
                else if c = backslash then readValue_loop firstChar (s\<lparr>escaped := True\<rparr>) d1 ps
                else if c = quote then
                  (if depth s = 0 \<and> firstChar = quote
                   then Some (returnBuffers (buffers s @ [tokenBuf s]) d1 ps)
                   else readValue_loop firstChar (s\<lparr>inString := False\<rparr>) d1 ps)
                else readValue_loop firstChar s d1 ps)
             else if c = quote then readValue_loop firstChar (flush (s\<lparr>inString := True\<rparr>)) d1 ps
             else if c = CHR ''{'' \<or> c = CHR ''['' then
               readValue_loop firstChar (flush (s\<lparr>depth := depth s + 1\<rparr>)) d1 ps
             else if c = CHR ''}'' \<or> c = CHR '']'' then
               (if depth s - 1 = 0 then
                  (if (firstChar = CHR ''{'' \<and> c = CHR ''}'') \<or> (firstChar = CHR ''['' \<and> c = CHR '']'')
                   then Some (returnBuffers (buffers s @ [tokenBuf s]) d1 ps)
                   else Some (Err (Errorf ''mismatched brackets in JSON''), d1, ps))
                else if depth s - 1 < 0 then
                  Some (Err (Errorf ''unexpected closing character in JSON''), d1, ps)
                else readValue_loop firstChar (flush (s\<lparr>depth := depth s - 1\<rparr>)) d1 ps)
             else if c = space \<or> c = tab \<or> c = creturn \<or> c = newline then
               (if depth s = 0 \<and> firstChar \<noteq> CHR ''{'' \<and> firstChar \<noteq> CHR ''['' \<and> firstChar \<noteq> quote
                   \<and> isCompleteLiteral (butlast (tokenBuf s))
                then Some (returnBuffers (buffers s @ [butlast (tokenBuf s)])
                       (d1\<lparr>readPos := readPos d1 - 1\<rparr>) ps)
                else readValue_loop firstChar (flush s) d1 ps)
             else if c = CHR '','' \<or> c = CHR '':'' then
               (if depth s = 0
                then Some (Err (Errorf (''unexpected character in JSON literal: '' @ [c])), d1, ps)
                else readValue_loop firstChar (flush s) d1 ps)
             else readValue_loop firstChar (flush s) d1 ps))"

text \<open>\<^verbatim>\<open>readValue\<close>.\<close>

definition readValue :: "Decoder \<Rightarrow> Pools \<Rightarrow> (rvalue \<times> Decoder \<times> Pools) option" where
  "readValue d0 ps =
     (case (if length (dbuf d0) = 0 \<or> readPos d0 \<ge> length (dbuf d0) then refillBuffer d0
            else (None, d0)) of
        (Some err, d) \<Rightarrow> Some (Err err, d, ps)
      | (None, d) \<Rightarrow>
          if readPos d \<ge> length (dbuf d) then Some (Panic, d, ps)
          else
            (let firstChar = dbuf d ! readPos d in
             case readValue_skip d of
               None \<Rightarrow> None
             | Some (Some err, d1) \<Rightarrow> Some (Err err, d1, ps)
             | Some (None, d1) \<Rightarrow>
                 if readPos d1 \<ge> length (dbuf d1) then Some (Err EOF, d1, ps)
                 else readValue_loop firstChar
                        \<lparr>tokenBuf = [], buffers = [], depth = 0, inString = False, escaped = False\<rparr>
                        d1 ps))"

text \<open>
  \<^verbatim>\<open>Decode\<close>: the error of the decoder, or the bytes handed to \<^verbatim>\<open>Unmarshal\<close> and what
  \<^verbatim>\<open>Unmarshal\<close> does with them (an error of \<^verbatim>\<open>Unmarshal\<close> is the error \<^verbatim>\<open>Decode\<close> returns, a
  syntax error under a new message).
\<close>

datatype decoded = Panicked | DecodeError derror | Unmarshalled string outcome

definition Decode :: "Decoder \<Rightarrow> Pools \<Rightarrow> Dest \<Rightarrow> (decoded \<times> Decoder \<times> Pools) option" where
  "Decode d ps v =
     (case Decoder_skipWhitespace d of
        None \<Rightarrow> None
      | Some (Some err, d1) \<Rightarrow> Some (DecodeError err, d1, ps)
      | Some (None, d1) \<Rightarrow>
          (case readValue d1 ps of
             None \<Rightarrow> None
           | Some (Panic, d2, ps2) \<Rightarrow> Some (Panicked, d2, ps2)
           | Some (Err err, d2, ps2) \<Rightarrow> Some (DecodeError err, d2, ps2)
           | Some (Val val, d2, ps2) \<Rightarrow>
               (case Unmarshal val v of
                  None \<Rightarrow> None
                | Some (out, p) \<Rightarrow> Some (Unmarshalled val out, d2, ps2))))"

declare Decoder_skipWhitespace.simps [code]
declare readValue_skip.simps [code]
declare readValue_loop.simps [code]

text \<open>The decoder on the source \<^verbatim>\<open>1 2 3\<close>, once the five bytes are in its buffer.\<close>

definition three_values :: "nat \<Rightarrow> Decoder" where
  "three_values k = \<lparr>reader = [], dbuf = ''1 2 3'', readPos = k, useNumber = False\<rparr>"

text \<open>
  Claim C7 (the code evaluated at the failing input). On the source \<^verbatim>\<open>1 2 3\<close> the first
  two calls of \<^verbatim>\<open>Decode\<close> hand \<^verbatim>\<open>1\<close> and \<^verbatim>\<open>2\<close> to \<^verbatim>\<open>Unmarshal\<close>. The third call has read \<^verbatim>\<open>3\<close>
  when the buffer ends; \<^verbatim>\<open>refillBuffer\<close> reads nothing, returns no error and sets the read
  position to 0, so the scan goes on at the first byte of the buffer and the value
  handed to \<^verbatim>\<open>Unmarshal\<close> is \<^verbatim>\<open>31\<close>. The decoder is then in the state it had after the first
  call: the fourth call returns \<^verbatim>\<open>2\<close> again, and no call ever returns \<^verbatim>\<open>io.EOF\<close>.
\<close>

theorem Decode_three_values:
  "Decode (NewDecoder ''1 2 3'') ps int_dest
     = Some (Unmarshalled ''1'' (Calls (SetNumber ''1'')), three_values 1, ps)
   \<and> Decode (three_values 1) ps int_dest
     = Some (Unmarshalled ''2'' (Calls (SetNumber ''2'')), three_values 3, ps)
   \<and> Decode (three_values 3) ps int_dest
     = Some (Unmarshalled ''31'' (Calls (SetNumber ''31'')), three_values 1, ps)"
  by code_simp

text \<open>
  With a line feed after the last value the three values are right, and the fourth
  call starts again at the first one.
\<close>

lemma Decode_three_lines:
  "Decode \<lparr>reader = [], dbuf = ''1 2 3'' @ [newline], readPos = 3, useNumber = False\<rparr> ps int_dest
     = Some (Unmarshalled ''3'' (Calls (SetNumber ''3'')),
         \<lparr>reader = [], dbuf = ''1 2 3'' @ [newline], readPos = 5, useNumber = False\<rparr>, ps)
   \<and> Decode \<lparr>reader = [], dbuf = ''1 2 3'' @ [newline], readPos = 5, useNumber = False\<rparr> ps int_dest
     = Some (Unmarshalled ''1'' (Calls (SetNumber ''1'')),
         \<lparr>reader = [], dbuf = ''1 2 3'' @ [newline], readPos = 1, useNumber = False\<rparr>, ps)"
  by code_simp

text \<open>Only a source with no byte at all gives the end-of-input signal.\<close>

lemma Decode_empty:
  "Decode (NewDecoder []) ps int_dest = Some (DecodeError EOF, NewDecoder [], ps)"
  by code_simp

end
